theory Spec2Isabelle
  imports Main "HOL-Library.AList"
begin

section \<open>Joob: operations, jobs and the queue's read accessors\<close>

text \<open>
  The development embeds \<^verbatim>\<open>Operation\<close> and \<^verbatim>\<open>Job\<close> (Operation.ts and Job.ts, the
  version with \<^verbatim>\<open>logWhenCompletedDir\<close>, \<^verbatim>\<open>startTime\<close> and \<^verbatim>\<open>onComplete\<close>) and the read
  accessors \<^verbatim>\<open>hasJob\<close> and \<^verbatim>\<open>getJobExport\<close> of the \<^verbatim>\<open>Queue\<close> with
  \<^verbatim>\<open>persistCompletedJobsToDir\<close>.

  The program is single-threaded and event-driven. One value of type \<open>job\<close> holds the
  fields of the Job, the heap of its Operation objects (addressed by their position in the
  input data, since the same object is shared by the backlog, the in-flight map, the index and
  the completed list), the timers set with \<^verbatim>\<open>setTimeout\<close> that have not fired yet, and the
  promises returned by the resolver that have not settled yet. What the environment does is an
  \<open>event\<close>: a call of \<^verbatim>\<open>job.start()\<close>, a timer firing, a promise settling. Each event runs
  one callback of the source to its end.
\<close>

subsection \<open>Data model\<close>

text \<open>\<^verbatim>\<open>STATUSES\<close> of index.ts.\<close>

datatype status = PENDING | STARTED | COMPLETED | FAILED

text \<open>
  The event names of Operation.ts and Job.ts, with the arguments they are emitted with: an
  operation event carries the operation's id, a job event the job's name (left out, it is the
  same for every event of one job).
\<close>

datatype 'k signal =
    JOB_STARTED
  | JOB_COMPLETED
  | OPERATION_STARTED 'k
  | OPERATION_COMPLETED 'k
  | OPERATION_FAILED 'k

text \<open>
  An Operation. \<open>op_result = None\<close> is JavaScript's \<^verbatim>\<open>undefined\<close>. The operation's
  EventEmitter only ever holds the one-shot listeners the Job registers with \<^verbatim>\<open>once\<close>; all
  listeners of one event on one operation are the same closure (it captures the job and the
  operation), so the emitter is the number of registered listeners per event.
\<close>

record ('k, 'd, 'v) operation =
  op_id :: 'k
  op_data :: 'd
  op_status :: status
  op_result :: "'v option"
  timesFailed :: nat
  once_started :: nat
  once_completed :: nat
  once_failed :: nat

text \<open>
  A timer that has been set and has not fired: \<^verbatim>\<open>setTimeout(() => newOperation.start(), d)\<close>
  for the operation at an address, or \<^verbatim>\<open>setTimeout(() => this.startNextOperation(true), d)\<close>.
  The delay is kept for the record; which pending timer fires next is left to the environment.
\<close>

datatype timer = StartTimer nat nat | CooldownTimer nat

text \<open>
  What an observer of a job event sees at the instant of the emit: the length of
  \<^verbatim>\<open>queuedOperations\<close>, the counter \<^verbatim>\<open>numCurrentOperations\<close> and the number of keys of
  \<^verbatim>\<open>currentOperations\<close>.
\<close>

record snapshot =
  seen_queued :: nat
  seen_count :: int
  seen_current :: nat

text \<open>
  A Job together with the heap of its operations and the pending work of the event loop.
  \<^verbatim>\<open>currentOperations\<close> and \<^verbatim>\<open>operationIndex\<close> are objects used as dictionaries, here
  association lists from the key to the address of the operation. \<^verbatim>\<open>completedOperations\<close>
  holds \<open>None\<close> where the source pushes \<^verbatim>\<open>undefined\<close>. \<open>emitted\<close> is what the job's own
  EventEmitter has emitted so far, \<open>op_emitted\<close> what the operations' emitters have emitted
  (with the address of the emitting operation), \<open>calls\<close> the invocations of the resolver,
  \<open>scheduled\<close> every timer ever set (\<open>timers\<close> holds those that have not fired).
  The clock-derived fields (\<^verbatim>\<open>startTime\<close>, \<^verbatim>\<open>effectiveTimePerOperation\<close>,
  \<^verbatim>\<open>estimatedTimeRemaining\<close>) influence no decision and are left out.
\<close>

record ('k, 'd, 'v) job =
  name :: string
  currentOperations :: "('k \<times> nat) list"
  numCurrentOperations :: int
  maxConcurrentOperations :: int
  maxFailuresPerOperation :: int
  cooldown :: nat
  throttle :: nat
  job_status :: status
  operationIndex :: "('k \<times> nat) list"
  queuedOperations :: "nat list"
  completedOperations :: "nat option list"
  operations :: "('k, 'd, 'v) operation list"
  timers :: "timer list"
  scheduled :: "timer list"
  promises :: "nat list"
  emitted :: "('k signal \<times> snapshot) list"
  op_emitted :: "(nat \<times> 'k signal) list"
  calls :: "nat list"

subsection \<open>Construction\<close>

text \<open>The constructor of Operation.\<close>

definition new_operation :: "'k \<Rightarrow> 'd \<Rightarrow> ('k, 'd, 'v) operation" where
  "new_operation i d =
     \<lparr>op_id = i, op_data = d, op_status = PENDING, op_result = None, timesFailed = 0,
      once_started = 0, once_completed = 0, once_failed = 0\<rparr>"

text \<open>
  The constructor of Job: one operation per data element, in order, each stored in
  \<^verbatim>\<open>operationIndex\<close> under its id (a later element with the same id overwrites the entry).
  Ids are compared as values. The source uses them as property keys, where ids with the same
  string form (the number 1 and the string \<^verbatim>\<open>'1'\<close>) are one key; the jobs of this development
  use numbers as ids.
\<close>

definition new_job ::
  "string \<Rightarrow> 'd list \<Rightarrow> ('d \<Rightarrow> nat \<Rightarrow> 'k) \<Rightarrow> int \<Rightarrow> int \<Rightarrow> nat \<Rightarrow> nat \<Rightarrow> ('k, 'd, 'v) job" where
  "new_job nm ds dataToId maxConcurrent maxFailures cool thr =
     \<lparr>name = nm,
      currentOperations = [],
      numCurrentOperations = 0,
      maxConcurrentOperations = maxConcurrent,
      maxFailuresPerOperation = maxFailures,
      cooldown = cool,
      throttle = thr,
      job_status = PENDING,
      operationIndex =
        fold (\<lambda>r idx. AList.update (dataToId (ds ! r) r) r idx) [0..<length ds] [],
      queuedOperations = [0..<length ds],
      completedOperations = [],
      operations = map (\<lambda>r. new_operation (dataToId (ds ! r) r) (ds ! r)) [0..<length ds],
      timers = [],
      scheduled = [],
      promises = [],
      emitted = [],
      op_emitted = [],
      calls = []\<rparr>"

subsection \<open>Job: predicates and emitters\<close>

definition isFull :: "('k, 'd, 'v) job \<Rightarrow> bool" where
  "isFull s \<longleftrightarrow> numCurrentOperations s \<ge> maxConcurrentOperations s"

definition hasPending :: "('k, 'd, 'v) job \<Rightarrow> bool" where
  "hasPending s \<longleftrightarrow> length (queuedOperations s) > 0"

definition isComplete :: "('k, 'd, 'v) job \<Rightarrow> bool" where
  "isComplete s \<longleftrightarrow> numCurrentOperations s = 0 \<and> \<not> hasPending s"

definition observe :: "('k, 'd, 'v) job \<Rightarrow> snapshot" where
  "observe s =
     \<lparr>seen_queued = length (queuedOperations s),
      seen_count = numCurrentOperations s,
      seen_current = length (currentOperations s)\<rparr>"

text \<open>\<^verbatim>\<open>Job.emit\<close> and \<^verbatim>\<open>Job.emitOperation\<close>: both emit on the job's emitter.\<close>

definition emit :: "'k signal \<Rightarrow> ('k, 'd, 'v) job \<Rightarrow> ('k, 'd, 'v) job" where
  "emit sig s = s\<lparr>emitted := emitted s @ [(sig, observe s)]\<rparr>"

definition emitOperation :: "'k signal \<Rightarrow> ('k, 'd, 'v) job \<Rightarrow> ('k, 'd, 'v) job" where
  "emitOperation sig s = emit sig s"

definition setTimeout :: "timer \<Rightarrow> ('k, 'd, 'v) job \<Rightarrow> ('k, 'd, 'v) job" where
  "setTimeout t s = s\<lparr>timers := timers s @ [t], scheduled := scheduled s @ [t]\<rparr>"

text \<open>Reading and updating the operation at an address.\<close>

definition the_op :: "('k, 'd, 'v) job \<Rightarrow> nat \<Rightarrow> ('k, 'd, 'v) operation" where
  "the_op s r = operations s ! r"

definition op_upd ::
  "nat \<Rightarrow> (('k, 'd, 'v) operation \<Rightarrow> ('k, 'd, 'v) operation) \<Rightarrow> ('k, 'd, 'v) job \<Rightarrow> ('k, 'd, 'v) job" where
  "op_upd r f s = s\<lparr>operations := (operations s)[r := f (operations s ! r)]\<rparr>"

subsection \<open>The dispatcher\<close>

text \<open>
  The body of the last branch of \<^verbatim>\<open>startNextOperation\<close> up to the recursive call: the
  head of the backlog is shifted out, stored in \<^verbatim>\<open>currentOperations\<close> under its id, counted,
  given three more one-shot listeners, and its start is scheduled after
  \<^verbatim>\<open>timesFailed * throttle\<close>.
\<close>

definition admit :: "('k, 'd, 'v) job \<Rightarrow> ('k, 'd, 'v) job" where
  "admit s =
     (case queuedOperations s of
        [] \<Rightarrow> s
      | r # rest \<Rightarrow>
          let s1 = s\<lparr>queuedOperations := rest,
                     currentOperations := AList.update (op_id (the_op s r)) r (currentOperations s),
                     numCurrentOperations := numCurrentOperations s + 1\<rparr>;
              s2 = op_upd r (\<lambda>p. p\<lparr>once_started := Suc (once_started p),
                                      once_completed := Suc (once_completed p),
                                      once_failed := Suc (once_failed p)\<rparr>) s1
          in setTimeout (StartTimer r (timesFailed (the_op s r) * throttle s)) s2)"

text \<open>\<^verbatim>\<open>Job.startNextOperation(cooled)\<close>.\<close>

function startNextOperation :: "bool \<Rightarrow> ('k, 'd, 'v) job \<Rightarrow> ('k, 'd, 'v) job" where
  "startNextOperation cooled s =
     (if cooldown s \<noteq> 0 \<and> \<not> cooled then setTimeout (CooldownTimer (cooldown s)) s
      else if isFull s then s
      else if isComplete s then
        (if job_status s = COMPLETED then s
         else emit JOB_COMPLETED (s\<lparr>job_status := COMPLETED\<rparr>))
      else if hasPending s then startNextOperation False (admit s)
      else s)"
  by pat_completeness auto
termination
  by (relation "measure (\<lambda>(c, s). length (queuedOperations s))")
     (auto simp: hasPending_def admit_def setTimeout_def op_upd_def Let_def split: list.splits)

declare startNextOperation.simps [simp del]

text \<open>\<^verbatim>\<open>Job.handleOperationComplete(id, final)\<close>.\<close>

definition handleOperationComplete ::
  "'k \<Rightarrow> bool \<Rightarrow> ('k, 'd, 'v) job \<Rightarrow> ('k, 'd, 'v) job" where
  "handleOperationComplete i final s =
     (let operation = map_of (currentOperations s) i;
          s1 = (if final then s\<lparr>completedOperations := completedOperations s @ [operation]\<rparr>
                else s);
          s2 = s1\<lparr>currentOperations := AList.delete i (currentOperations s1),
                   numCurrentOperations := numCurrentOperations s1 - 1\<rparr>
      in startNextOperation False s2)"

text \<open>
  The three listeners registered by \<^verbatim>\<open>startNextOperation\<close> on the operation at address
  \<open>r\<close>. Each is called with the id the operation emits; the failure listener reads
  \<^verbatim>\<open>newOperation.timesFailed\<close> of the operation it was registered for.
\<close>

definition onStarted :: "nat \<Rightarrow> ('k, 'd, 'v) job \<Rightarrow> ('k, 'd, 'v) job" where
  "onStarted r s = emitOperation (OPERATION_STARTED (op_id (the_op s r))) s"

definition onCompleted :: "nat \<Rightarrow> ('k, 'd, 'v) job \<Rightarrow> ('k, 'd, 'v) job" where
  "onCompleted r s =
     (let i = op_id (the_op s r)
      in handleOperationComplete i True (emitOperation (OPERATION_COMPLETED i) s))"

definition onFailed :: "nat \<Rightarrow> ('k, 'd, 'v) job \<Rightarrow> ('k, 'd, 'v) job" where
  "onFailed r s =
     (let i = op_id (the_op s r);
          s1 = emitOperation (OPERATION_FAILED i) s
      in if int (timesFailed (the_op s1 r)) < maxFailuresPerOperation s1
         then handleOperationComplete i False
                (s1\<lparr>queuedOperations := queuedOperations s1 @ [r]\<rparr>)
         else handleOperationComplete i True s1)"

subsection \<open>Operation\<close>

text \<open>
  \<^verbatim>\<open>EventEmitter.emit\<close> on an operation: the listeners registered at the moment of the emit
  are called in turn; a one-shot listener is removed just before it is called; listeners
  registered during the emit are not called by it. \<open>n\<close> is the number of listeners at the
  moment of the emit, \<open>remove\<close> takes one listener off and \<open>listener\<close> is its body.
\<close>

primrec invoke_once ::
  "nat \<Rightarrow> (('k, 'd, 'v) job \<Rightarrow> ('k, 'd, 'v) job) \<Rightarrow> (('k, 'd, 'v) job \<Rightarrow> ('k, 'd, 'v) job) \<Rightarrow>
   ('k, 'd, 'v) job \<Rightarrow> ('k, 'd, 'v) job" where
  "invoke_once 0 remove listener s = s"
| "invoke_once (Suc n) remove listener s = invoke_once n remove listener (listener (remove s))"

text \<open>\<^verbatim>\<open>Operation.emit(status)\<close>, one definition per event of Operation.ts.\<close>

definition emit_started :: "nat \<Rightarrow> ('k, 'd, 'v) job \<Rightarrow> ('k, 'd, 'v) job" where
  "emit_started r s =
     invoke_once (once_started (the_op s r))
       (op_upd r (\<lambda>p. p\<lparr>once_started := once_started p - 1\<rparr>)) (onStarted r)
       (s\<lparr>op_emitted := op_emitted s @ [(r, OPERATION_STARTED (op_id (the_op s r)))]\<rparr>)"

definition emit_completed :: "nat \<Rightarrow> ('k, 'd, 'v) job \<Rightarrow> ('k, 'd, 'v) job" where
  "emit_completed r s =
     invoke_once (once_completed (the_op s r))
       (op_upd r (\<lambda>p. p\<lparr>once_completed := once_completed p - 1\<rparr>)) (onCompleted r)
       (s\<lparr>op_emitted := op_emitted s @ [(r, OPERATION_COMPLETED (op_id (the_op s r)))]\<rparr>)"

definition emit_failed :: "nat \<Rightarrow> ('k, 'd, 'v) job \<Rightarrow> ('k, 'd, 'v) job" where
  "emit_failed r s =
     invoke_once (once_failed (the_op s r))
       (op_upd r (\<lambda>p. p\<lparr>once_failed := once_failed p - 1\<rparr>)) (onFailed r)
       (s\<lparr>op_emitted := op_emitted s @ [(r, OPERATION_FAILED (op_id (the_op s r)))]\<rparr>)"

text \<open>
  \<^verbatim>\<open>Operation.start()\<close> up to the call of \<^verbatim>\<open>execute\<close>: the resolver is invoked and its
  promise is pending.
\<close>

definition operation_start :: "nat \<Rightarrow> ('k, 'd, 'v) job \<Rightarrow> ('k, 'd, 'v) job" where
  "operation_start r s =
     (if op_status (the_op s r) = STARTED then s
      else
        let s1 = op_upd r (\<lambda>p. p\<lparr>op_status := STARTED\<rparr>) s;
            s2 = emit_started r s1
        in s2\<lparr>calls := calls s2 @ [r], promises := promises s2 @ [r]\<rparr>)"

text \<open>The \<^verbatim>\<open>then\<close> and the \<^verbatim>\<open>catch\<close> callbacks of \<^verbatim>\<open>Operation.start()\<close>.\<close>

definition operation_resolved :: "nat \<Rightarrow> 'v option \<Rightarrow> ('k, 'd, 'v) job \<Rightarrow> ('k, 'd, 'v) job" where
  "operation_resolved r v s =
     emit_completed r (op_upd r (\<lambda>p. p\<lparr>op_status := COMPLETED, op_result := v\<rparr>) s)"

definition operation_rejected :: "nat \<Rightarrow> 'v option \<Rightarrow> ('k, 'd, 'v) job \<Rightarrow> ('k, 'd, 'v) job" where
  "operation_rejected r e s =
     emit_failed r
       (emit_failed r
         (op_upd r (\<lambda>p. p\<lparr>op_status := FAILED, op_result := e,
                           timesFailed := timesFailed p + 1\<rparr>) s))"

subsection \<open>Job.start and the event loop\<close>

text \<open>\<^verbatim>\<open>Job.start()\<close>.\<close>

definition job_start :: "('k, 'd, 'v) job \<Rightarrow> ('k, 'd, 'v) job" where
  "job_start s =
     (if job_status s = STARTED then s
      else startNextOperation False (emit JOB_STARTED (s\<lparr>job_status := STARTED\<rparr>)))"

text \<open>
  How the promise of one resolver call settles: with a value or with a reason, either of
  which may be \<^verbatim>\<open>undefined\<close> (\<open>None\<close>).
\<close>

datatype 'v settled = Resolve "'v option" | Reject "'v option"

datatype 'v event = Start | Fire nat | Settle nat "'v settled"

text \<open>
  One turn of the event loop. \<open>Fire n\<close> fires the \<open>n\<close>-th pending timer, \<open>Settle r x\<close>
  settles the pending promise of the operation at \<open>r\<close>. An event that is not enabled gives
  \<open>None\<close>.
\<close>

definition step :: "'v event \<Rightarrow> ('k, 'd, 'v) job \<Rightarrow> ('k, 'd, 'v) job option" where
  "step e s =
     (case e of
        Start \<Rightarrow> Some (job_start s)
      | Fire n \<Rightarrow>
          if n < length (timers s) then
            (let s1 = s\<lparr>timers := take n (timers s) @ drop (Suc n) (timers s)\<rparr>
             in case timers s ! n of
                  StartTimer r d \<Rightarrow> Some (operation_start r s1)
                | CooldownTimer d \<Rightarrow> Some (startNextOperation True s1))
          else None
      | Settle r x \<Rightarrow>
          if r \<in> set (promises s) then
            (let s1 = s\<lparr>promises := remove1 r (promises s)\<rparr>
             in case x of
                  Resolve v \<Rightarrow> Some (operation_resolved r v s1)
                | Reject v \<Rightarrow> Some (operation_rejected r v s1))
          else None)"

fun run :: "'v event list \<Rightarrow> ('k, 'd, 'v) job \<Rightarrow> ('k, 'd, 'v) job option" where
  "run [] s = Some s"
| "run (e # es) s = (case step e s of None \<Rightarrow> None | Some s' \<Rightarrow> run es s')"

text \<open>
  \<^verbatim>\<open>Operation.export()\<close> and the operations listed by \<^verbatim>\<open>Job.export()\<close>, in the order in
  which \<^verbatim>\<open>operationIndex\<close> received its keys. \<^verbatim>\<open>Object.values\<close> lists integer-like keys
  first and in ascending order, and an id \<^verbatim>\<open>'__proto__'\<close> is not stored as a key; for ids that
  are numbers given in ascending order, as in the jobs below, the two orders are the same.
\<close>

definition export_operation :: "('k, 'd, 'v) operation \<Rightarrow> 'k \<times> 'd \<times> status \<times> 'v option" where
  "export_operation p = (op_id p, op_data p, op_status p, op_result p)"

definition export_operations :: "('k, 'd, 'v) job \<Rightarrow> ('k \<times> 'd \<times> status \<times> 'v option) list" where
  "export_operations s = map (\<lambda>(k, r). export_operation (the_op s r)) (operationIndex s)"

subsection \<open>Queue: the read accessors\<close>

text \<open>
  A promise made with \<^verbatim>\<open>new Promise((resolve, reject) => ...)\<close> takes the first call of
  \<^verbatim>\<open>resolve\<close> or \<^verbatim>\<open>reject\<close> and ignores the later ones; when the executor and its callbacks
  make no call, the promise stays pending for ever.
\<close>

datatype queue_error =
    NoExportDirectory
  | JobNotFound
  | NoReason
  | ReadError
  | ParseError

datatype 'a promise = Fulfilled 'a | Rejected queue_error | StaysPending

definition first_settled :: "'a promise list \<Rightarrow> 'a promise" where
  "first_settled cs = (case cs of [] \<Rightarrow> StaysPending | c # _ \<Rightarrow> c)"

text \<open>
  The part of a Queue the accessors read: the names in \<^verbatim>\<open>jobIndex\<close> and
  \<^verbatim>\<open>persistCompletedJobsToDir\<close> (\<open>None\<close> is \<^verbatim>\<open>undefined\<close>). The file system is a parameter:
  the content of the file at a path, \<open>None\<close> when the path cannot be read.
\<close>

record queue =
  jobIndex :: "string list"
  persistCompletedJobsToDir :: "string option"

text \<open>\<^verbatim>\<open>!this.persistCompletedJobsToDir\<close>: \<^verbatim>\<open>undefined\<close> and the empty string are falsy.\<close>

definition no_directory :: "queue \<Rightarrow> bool" where
  "no_directory q \<longleftrightarrow> (case persistCompletedJobsToDir q of None \<Rightarrow> True | Some d \<Rightarrow> d = [])"

text \<open>The path \<^verbatim>\<open>`${this.persistCompletedJobsToDir}/${name}.json`\<close>.\<close>

definition export_path :: "queue \<Rightarrow> string \<Rightarrow> string" where
  "export_path q nm =
     (case persistCompletedJobsToDir q of None \<Rightarrow> ''undefined'' | Some d \<Rightarrow> d) @ ''/'' @ nm @ ''.json''"

text \<open>
  \<^verbatim>\<open>Queue.hasJob(name, includePersisted)\<close>: the calls of \<^verbatim>\<open>resolve\<close> and \<^verbatim>\<open>reject\<close> in the
  order the executor and the callback of \<^verbatim>\<open>fs.access\<close> make them (no branch returns early).
  \<^verbatim>\<open>jobIndex\<close> is read as the names the queue has stored in it; the names a plain object
  inherits (\<^verbatim>\<open>constructor\<close>) are not among them here.
\<close>

definition hasJob :: "(string \<Rightarrow> string option) \<Rightarrow> queue \<Rightarrow> string \<Rightarrow> bool \<Rightarrow> bool promise" where
  "hasJob fs q nm includePersisted =
     first_settled
       ((if nm \<in> set (jobIndex q) then [Fulfilled True] else []) @
        (if includePersisted then
           (if no_directory q then [Rejected NoExportDirectory] else []) @
           [Fulfilled (fs (export_path q nm) \<noteq> None)]
         else [Fulfilled False]))"

text \<open>
  \<^verbatim>\<open>Queue.getJobExport(name, includePersisted)\<close>. The executor is an \<^verbatim>\<open>async\<close> function: an
  exception inside it (the rejection of the awaited \<^verbatim>\<open>hasJob\<close>, or a \<^verbatim>\<open>throw\<close>) rejects the
  promise of the executor, which nobody holds, and makes no call of \<^verbatim>\<open>reject\<close>. The result
  is the state the returned promise ends in, and the error of the unhandled rejection if there
  is one. \<open>parse\<close> is \<^verbatim>\<open>JSON.parse\<close>, \<open>None\<close> when it throws. The one file system
  parameter answers both \<^verbatim>\<open>fs.access\<close> and \<^verbatim>\<open>fs.readFile\<close>: a path that exists can be read.
\<close>

definition getJobExport ::
  "(string \<Rightarrow> string option) \<Rightarrow> (string \<Rightarrow> 'j option) \<Rightarrow> queue \<Rightarrow> string \<Rightarrow> bool \<Rightarrow>
   'j promise \<times> queue_error option" where
  "getJobExport fs parse q nm includePersisted =
     (case hasJob fs q nm includePersisted of
        Rejected e \<Rightarrow> (StaysPending, Some e)
      | StaysPending \<Rightarrow> (StaysPending, None)
      | Fulfilled found \<Rightarrow>
          let c1 = (if \<not> found then [Rejected JobNotFound] else [])
          in if nm \<in> set (jobIndex q) then (first_settled c1, None)
             else if includePersisted then
               (if no_directory q then (first_settled c1, Some NoExportDirectory)
                else
                  (first_settled
                     (c1 @
                      (case fs (export_path q nm) of
                         None \<Rightarrow> [Rejected ReadError, Rejected ParseError]
                       | Some text \<Rightarrow>
                           (case parse text of
                              None \<Rightarrow> [Rejected ParseError]
                            | Some j \<Rightarrow> [Fulfilled j]))),
                   None))
             else (first_settled (c1 @ [Rejected NoReason]), None))"

subsection \<open>Example jobs\<close>

text \<open>
  The jobs of the example scripts: numbers as data, \<^verbatim>\<open>dataToId: d => d\<close>, and the options
  \<^verbatim>\<open>maxConcurrentOperations\<close>, \<^verbatim>\<open>maxFailuresPerOperation\<close> and \<^verbatim>\<open>cooldown\<close> as given; the
  throttle is the default of 500 ms.
\<close>

definition example_job :: "nat list \<Rightarrow> int \<Rightarrow> int \<Rightarrow> nat \<Rightarrow> (nat, nat, string) job" where
  "example_job ds maxConcurrent maxFailures cool =
     new_job ''My Job'' ds (\<lambda>d i. d) maxConcurrent maxFailures cool 500"

text \<open>What a run leaves of the state, for the statements below.\<close>

definition after :: "'v event list \<Rightarrow> ('k, 'd, 'v) job \<Rightarrow> (('k, 'd, 'v) job \<Rightarrow> 'a) \<Rightarrow> 'a option" where
  "after es s f = map_option f (run es s)"

definition count_signal :: "'k signal \<Rightarrow> ('k signal \<times> snapshot) list \<Rightarrow> nat" where
  "count_signal sig xs = length (filter (\<lambda>x. fst x = sig) xs)"

definition count_op_signal :: "nat \<Rightarrow> 'k signal \<Rightarrow> (nat \<times> 'k signal) list \<Rightarrow> nat" where
  "count_op_signal r sig xs = length (filter (\<lambda>x. x = (r, sig)) xs)"

text \<open>
  The state reached by the single-element job after its operation has resolved and the job
  has completed (with and without cooldown).
\<close>

definition completed_job :: "nat \<Rightarrow> (nat, nat, string) job" where
  "completed_job cool =
     the (run (if cool = 0 then [Start, Fire 0, Settle 0 (Resolve (Some ''yes''))]
               else [Start, Fire 0, Fire 0, Fire 0, Settle 0 (Resolve (Some ''yes'')), Fire 0])
            (example_job [1] 1 1 cool))"

subsection \<open>Predicates of the properties\<close>

text \<open>
  The job has emitted JOB_COMPLETED once if its status is COMPLETED and never otherwise, and
  every JOB_COMPLETED was emitted with an empty backlog and the counter at zero.
\<close>

definition completion_sound :: "('k, 'd, 'v) job \<Rightarrow> bool" where
  "completion_sound s \<longleftrightarrow>
     count_signal JOB_COMPLETED (emitted s) = (if job_status s = COMPLETED then 1 else 0) \<and>
     list_all (\<lambda>x. fst x = JOB_COMPLETED \<longrightarrow> seen_queued (snd x) = 0 \<and> seen_count (snd x) = 0)
       (emitted s)"

text \<open>The status and the result of every operation, as \<^verbatim>\<open>export()\<close> shows them.\<close>

definition outcomes :: "('k, 'd, 'v) job \<Rightarrow> (status \<times> 'v option) list" where
  "outcomes s = map (\<lambda>p. (op_status p, op_result p)) (operations s)"

text \<open>
  What an event settles for the operation at \<open>r\<close>: the status and the result that the
  \<^verbatim>\<open>then\<close> or the \<^verbatim>\<open>catch\<close> callback of \<^verbatim>\<open>Operation.start()\<close> writes when a promise of
  that operation settles; and the settled attempts of the operation in a list of events,
  oldest first.
\<close>

fun settlement :: "nat \<Rightarrow> 'v event \<Rightarrow> (status \<times> 'v option) option" where
  "settlement r (Settle x (Resolve v)) = (if x = r then Some (COMPLETED, v) else None)"
| "settlement r (Settle x (Reject v)) = (if x = r then Some (FAILED, v) else None)"
| "settlement r Start = None"
| "settlement r (Fire n) = None"

fun settlements :: "nat \<Rightarrow> 'v event list \<Rightarrow> (status \<times> 'v option) list" where
  "settlements r [] = []"
| "settlements r (e # es) =
     (case settlement r e of None \<Rightarrow> settlements r es | Some x \<Rightarrow> x # settlements r es)"

subsection \<open>Predicates of the retry budget\<close>

text \<open>
  The pending work of the operation at index \<^verbatim>\<open>r\<close>: the timers that will call its
  \<^verbatim>\<open>start()\<close> and the promises of its resolver that have not settled.
\<close>

fun starts :: "nat \<Rightarrow> timer \<Rightarrow> bool" where
  "starts r (StartTimer x d) = (x = r)"
| "starts r (CooldownTimer d) = False"

definition active :: "('k, 'd, 'v) job \<Rightarrow> nat \<Rightarrow> nat" where
  "active s r = length (filter (starts r) (timers s)) + count_list (promises s) r"

text \<open>The ids of the operations, in the order of the data.\<close>

definition ids :: "('k, 'd, 'v) job \<Rightarrow> 'k list" where
  "ids s = map op_id (operations s)"

text \<open>
  The indices held by the backlog, the timers, the promises and \<^verbatim>\<open>currentOperations\<close> are
  those of operations of the job, the ids are unique, the counter is within the limit and
  the budget is at least one.
\<close>

definition well_formed :: "('k, 'd, 'v) job \<Rightarrow> bool" where
  "well_formed s \<longleftrightarrow>
     (\<forall>x \<in> set (queuedOperations s). x < length (operations s)) \<and>
     (\<forall>x \<in> set (promises s). x < length (operations s)) \<and>
     (\<forall>x d. StartTimer x d \<in> set (timers s) \<longrightarrow> x < length (operations s)) \<and>
     distinct (ids s) \<and>
     (\<forall>k y. map_of (currentOperations s) k = Some y \<longrightarrow>
        y < length (operations s) \<and> ids s ! y = k) \<and>
     numCurrentOperations s \<le> maxConcurrentOperations s \<and>
     1 \<le> maxFailuresPerOperation s"

text \<open>
  The bookkeeping of one operation whose resolver never fulfils: the failure listener is
  registered at most once and only while the operation is in flight and under the budget, the
  operation is queued at most once and only under the budget, pending work without a listener
  belongs to an operation at the budget, every call of the resolver is a counted failure or
  the promise in flight, and the operation is in \<^verbatim>\<open>completedOperations\<close> exactly when
  \<^verbatim>\<open>timesFailed\<close> has reached the budget.
\<close>

definition accounted :: "('k, 'd, 'v) job \<Rightarrow> nat \<Rightarrow> bool" where
  "accounted s r \<longleftrightarrow>
     once_failed (operations s ! r) \<le> 1 \<and>
     (once_failed (operations s ! r) \<noteq> 0 \<longrightarrow>
        int (timesFailed (operations s ! r)) < maxFailuresPerOperation s \<and>
        r \<notin> set (queuedOperations s) \<and>
        map_of (currentOperations s) (op_id (operations s ! r)) = Some r) \<and>
     (r \<in> set (queuedOperations s) \<longrightarrow> int (timesFailed (operations s ! r)) < maxFailuresPerOperation s) \<and>
     count_list (queuedOperations s) r \<le> 1 \<and>
     (0 < active s r \<and> once_failed (operations s ! r) = 0 \<and> r \<notin> set (queuedOperations s) \<longrightarrow>
        maxFailuresPerOperation s \<le> int (timesFailed (operations s ! r))) \<and>
     count_list (calls s) r = timesFailed (operations s ! r) + count_list (promises s) r \<and>
     (maxFailuresPerOperation s \<le> int (timesFailed (operations s ! r)) \<longleftrightarrow>
        Some r \<in> set (completedOperations s)) \<and>
     count_list (promises s) r = (if op_status (operations s ! r) = STARTED then 1 else 0)"

text \<open>
  The state between two callbacks (\<^verbatim>\<open>tracked\<close>), the state on entry to the dispatcher
  (\<^verbatim>\<open>admissible\<close>, where the head of the backlog is about to be admitted), and the state
  inside the catch handler of the operation before its failure listener runs (\<^verbatim>\<open>failing\<close>).
\<close>

definition tracked :: "('k, 'd, 'v) job \<Rightarrow> nat \<Rightarrow> bool" where
  "tracked s r \<longleftrightarrow>
     well_formed s \<and> r < length (operations s) \<and> accounted s r \<and>
     (r \<in> set (queuedOperations s) \<longrightarrow> active s r = 0) \<and>
     (2 \<le> active s r \<longrightarrow> cooldown s = 0 \<and> queuedOperations s = [])"

definition admissible :: "('k, 'd, 'v) job \<Rightarrow> nat \<Rightarrow> bool" where
  "admissible s r \<longleftrightarrow>
     well_formed s \<and> r < length (operations s) \<and> accounted s r \<and>
     (r \<in> set (tl (queuedOperations s)) \<longrightarrow> active s r = 0) \<and>
     (2 \<le> active s r + (if queuedOperations s \<noteq> [] \<and> hd (queuedOperations s) = r then 1 else 0) \<longrightarrow>
        cooldown s = 0 \<and> tl (queuedOperations s) = [])"

definition failing :: "('k, 'd, 'v) job \<Rightarrow> nat \<Rightarrow> bool" where
  "failing s r \<longleftrightarrow>
     well_formed s \<and> r < length (operations s) \<and>
     once_failed (operations s ! r) = 1 \<and>
     int (timesFailed (operations s ! r)) \<le> maxFailuresPerOperation s \<and>
     r \<notin> set (queuedOperations s) \<and>
     map_of (currentOperations s) (op_id (operations s ! r)) = Some r \<and>
     count_list (calls s) r = timesFailed (operations s ! r) + count_list (promises s) r \<and>
     count_list (promises s) r = (if op_status (operations s ! r) = STARTED then 1 else 0) \<and>
     Some r \<notin> set (completedOperations s) \<and>
     (queuedOperations s \<noteq> [] \<or> cooldown s \<noteq> 0 \<longrightarrow> active s r = 0)"

section \<open>Properties\<close>

subsection \<open>What the callbacks leave unchanged\<close>

lemma invoke_once_frame:
  "(\<And>s. f (listener (remove s)) = f s) \<Longrightarrow> f (invoke_once n remove listener s) = f s"
  by (induction n arbitrary: s) simp_all

lemma map_update_same:
  "(\<And>x. f (g x) = f x) \<Longrightarrow> map f (xs[r := g (xs ! r)]) = map f xs"
proof (rule nth_equalityI)
  show "length (map f (xs[r := g (xs ! r)])) = length (map f xs)" by simp
next
  fix i assume a: "\<And>x. f (g x) = f x" and "i < length (map f (xs[r := g (xs ! r)]))"
  then have "i < length xs" by simp
  then show "map f (xs[r := g (xs ! r)]) ! i = map f xs ! i"
    by (cases "i = r") (simp_all add: a)
qed

lemma startNextOperation_admits:
  "\<not> (cooldown s \<noteq> 0 \<and> \<not> cooled) \<and> \<not> isFull s \<and> \<not> isComplete s \<and> hasPending s \<Longrightarrow>
   startNextOperation cooled s = startNextOperation False (admit s)"
  by (auto simp: startNextOperation.simps [of cooled s])

lemma observe_job_status [simp]: "observe (s\<lparr>job_status := x\<rparr>) = observe s"
  by (simp add: observe_def)

lemma emitted_admit: "emitted (admit s) = emitted s"
  by (simp add: admit_def setTimeout_def op_upd_def Let_def split: list.splits)

lemma emitted_startNextOperation:
  "\<exists>rest. emitted (startNextOperation c s) = emitted s @ rest"
proof (induction c s rule: startNextOperation.induct)
  case (1 cooled s)
  show ?case
  proof (cases "\<not> (cooldown s \<noteq> 0 \<and> \<not> cooled) \<and> \<not> isFull s \<and> \<not> isComplete s \<and> hasPending s")
    case True
    with 1 obtain rest where "emitted (startNextOperation False (admit s)) = emitted (admit s) @ rest"
      by blast
    with True show ?thesis
      by (simp add: startNextOperation_admits emitted_admit)
  next
    case False
    then show ?thesis
      by (auto simp: startNextOperation.simps [of cooled s] setTimeout_def emit_def)
  qed
qed

lemma calls_emit_started: "calls (emit_started r s) = calls s"
  unfolding emit_started_def
  by (subst invoke_once_frame) (simp_all add: onStarted_def emitOperation_def emit_def op_upd_def)



subsection \<open>The queue's accessors\<close>

text \<open>
  C8. On a Queue without a persistence directory, \<^verbatim>\<open>getJobExport("missing", true)\<close> is
  claimed to reject with the configuration error. In the source \<^verbatim>\<open>hasJob\<close> rejects with that
  error, the \<^verbatim>\<open>await\<close> in the async executor of \<^verbatim>\<open>getJobExport\<close> throws it, and neither
  \<^verbatim>\<open>resolve\<close> nor \<^verbatim>\<open>reject\<close> is ever called: the returned promise stays pending, and the
  error surfaces as an unhandled rejection.
\<close>

theorem getJobExport_missing_without_directory:
  "hasJob fs \<lparr>jobIndex = [], persistCompletedJobsToDir = None\<rparr> ''missing'' True
     = Rejected NoExportDirectory \<and>
   getJobExport fs parse \<lparr>jobIndex = [], persistCompletedJobsToDir = None\<rparr> ''missing'' True
     = (StaysPending, Some NoExportDirectory)"
  by (simp add: getJobExport_def hasJob_def first_settled_def no_directory_def)

subsection \<open>Runs that show the accumulated listeners and the doubled emit\<close>

text \<open>
  C1. The in-flight operations are claimed never to exceed \<^verbatim>\<open>maxConcurrentOperations\<close>,
  with \<^verbatim>\<open>numCurrentOperations\<close> equal to the size of \<^verbatim>\<open>currentOperations\<close>. Job with data
  1, 2, 3, one operation at a time, two failures allowed, no cooldown; every element fails on
  its first attempt, and element 1 succeeds on its second. Operation 1 then carries two
  listeners for its completion (one per admission), both run \<^verbatim>\<open>handleOperationComplete\<close>,
  and each admits one more operation: two operations are in \<^verbatim>\<open>currentOperations\<close> while the
  limit and the counter are 1.
\<close>

theorem two_in_flight_with_limit_one:
  "after [Start, Fire 0, Settle 0 (Reject (Some ''no'')),
          Fire 0, Settle 1 (Reject (Some ''no'')),
          Fire 0, Settle 2 (Reject (Some ''no'')),
          Fire 0, Settle 0 (Resolve (Some ''yes''))]
     (example_job [1, 2, 3] 1 2 0)
     (\<lambda>s. (map snd (currentOperations s), numCurrentOperations s, maxConcurrentOperations s,
           queuedOperations s, timers s))
   = Some ([1, 2], 1, 1, [], [StartTimer 1 500, StartTimer 2 500])"
  by code_simp

text \<open>
  C3. At its finalization an operation's \<^verbatim>\<open>timesFailed\<close> is claimed to equal the number of
  failure signals emitted for it. Job with the single element 1, two failures allowed, the
  resolver always rejecting. After the second rejection the operation is in
  \<^verbatim>\<open>completedOperations\<close> with \<^verbatim>\<open>timesFailed = 2\<close>; it has emitted the failure event four
  times (twice per rejection), and the job has forwarded three of them.
\<close>

theorem failure_signals_exceed_timesFailed:
  "after [Start, Fire 0, Settle 0 (Reject (Some ''no'')), Fire 0, Settle 0 (Reject (Some ''no''))]
     (example_job [1] 1 2 0)
     (\<lambda>s. (completedOperations s, map timesFailed (operations s), map op_status (operations s),
           count_op_signal 0 (OPERATION_FAILED 1) (op_emitted s),
           count_signal (OPERATION_FAILED 1) (emitted s)))
   = Some ([Some 0], [2], [FAILED], 4, 3)"
  by code_simp

text \<open>
  C9. After the job has completed, every operation listed by \<^verbatim>\<open>export()\<close> is claimed to
  have a terminal status. Job with data 1, 2, one operation at a time, two failures allowed;
  both elements fail on their first attempt and element 1 succeeds on its second. The second
  completion listener of operation 1 finds the counter at zero and the backlog empty and
  completes the job while operation 2 waits for its retry; when that retry starts, the
  completed job exports operation 2 as STARTED.
\<close>

theorem completed_job_exports_started_operation:
  "after [Start, Fire 0, Settle 0 (Reject (Some ''no'')),
          Fire 0, Settle 1 (Reject (Some ''no'')),
          Fire 0, Settle 0 (Resolve (Some ''yes'')), Fire 0]
     (example_job [1, 2] 1 2 0)
     (\<lambda>s. (job_status s, count_signal JOB_COMPLETED (emitted s), export_operations s))
   = Some (COMPLETED, 1, [(1, 1, COMPLETED, Some ''yes''), (2, 2, STARTED, Some ''no'')])"
  by code_simp

subsection \<open>The cooldown\<close>

text \<open>
  C5, as claimed: the cooldown delays the dispatcher once per Job and is not applied again
  when a completion or a failure invokes the dispatcher. Job with data 1, 2, one operation
  at a time, cooldown 200: the run sets the cooldown timer at \<^verbatim>\<open>start()\<close>, again after
  admitting operation 1, and again when operation 1 has resolved, and operation 2 stays in
  the backlog until that third timer fires.
\<close>

theorem cooldown_set_again_after_completion:
  "after [Start, Fire 0, Fire 0, Fire 0, Settle 0 (Resolve (Some ''yes''))]
     (example_job [1, 2] 1 1 200)
     (\<lambda>s. (scheduled s, timers s, queuedOperations s, map op_status (operations s)))
   = Some ([CooldownTimer 200, StartTimer 0 0, CooldownTimer 200, CooldownTimer 200],
           [CooldownTimer 200], [1], [COMPLETED, PENDING])"
  by code_simp

text \<open>
  C5, amended. With a nonzero cooldown every invocation of the dispatcher that does not come
  from the cooldown timer only sets a cooldown timer: the one made by \<^verbatim>\<open>start()\<close>, and
  the one made by \<^verbatim>\<open>handleOperationComplete\<close> after a completion or a failure, which admits
  nothing. The invocation made by the timer admits at most one operation and sets the
  cooldown timer again for the next.
\<close>

theorem cooldown_before_every_dispatch:
  "cooldown s \<noteq> 0 \<longrightarrow>
     startNextOperation False s = setTimeout (CooldownTimer (cooldown s)) s \<and>
     job_start s =
       (if job_status s = STARTED then s
        else setTimeout (CooldownTimer (cooldown s)) (emit JOB_STARTED (s\<lparr>job_status := STARTED\<rparr>))) \<and>
     scheduled (handleOperationComplete i final s) = scheduled s @ [CooldownTimer (cooldown s)] \<and>
     queuedOperations (handleOperationComplete i final s) = queuedOperations s \<and>
     startNextOperation True s =
       (if isFull s then s
        else if isComplete s then
          (if job_status s = COMPLETED then s else emit JOB_COMPLETED (s\<lparr>job_status := COMPLETED\<rparr>))
        else if hasPending s then setTimeout (CooldownTimer (cooldown s)) (admit s)
        else s)"
proof
  assume c: "cooldown s \<noteq> 0"
  have n: "\<And>t. cooldown t \<noteq> 0 \<Longrightarrow>
      startNextOperation False t = setTimeout (CooldownTimer (cooldown t)) t"
    by (simp add: startNextOperation.simps [of False])
  have a: "cooldown (admit s) = cooldown s"
    by (simp add: admit_def setTimeout_def op_upd_def Let_def split: list.splits)
  show "startNextOperation False s = setTimeout (CooldownTimer (cooldown s)) s \<and>
     job_start s =
       (if job_status s = STARTED then s
        else setTimeout (CooldownTimer (cooldown s)) (emit JOB_STARTED (s\<lparr>job_status := STARTED\<rparr>))) \<and>
     scheduled (handleOperationComplete i final s) = scheduled s @ [CooldownTimer (cooldown s)] \<and>
     queuedOperations (handleOperationComplete i final s) = queuedOperations s \<and>
     startNextOperation True s =
       (if isFull s then s
        else if isComplete s then
          (if job_status s = COMPLETED then s else emit JOB_COMPLETED (s\<lparr>job_status := COMPLETED\<rparr>))
        else if hasPending s then setTimeout (CooldownTimer (cooldown s)) (admit s)
        else s)"
    using c a
    by (simp add: n job_start_def handleOperationComplete_def Let_def emit_def setTimeout_def
        startNextOperation.simps [of True])
qed

theorem cooldown_before_every_dispatch_witness:
  "cooldown (example_job [1, 2] 1 1 200) \<noteq> 0 \<and>
   timers (job_start (example_job [1, 2] 1 1 200)) = [CooldownTimer 200] \<and>
   queuedOperations (job_start (example_job [1, 2] 1 1 200)) = [0, 1] \<and>
   scheduled (handleOperationComplete 1 True (example_job [1, 2] 1 1 200)) = [CooldownTimer 200]"
proof -
  have c: "cooldown (example_job [1, 2] 1 1 200) \<noteq> 0"
    "cooldown (example_job [1, 2] 1 1 200) = 200"
    "job_status (example_job [1, 2] 1 1 200) \<noteq> STARTED"
    "timers (example_job [1, 2] 1 1 200) = []"
    "scheduled (example_job [1, 2] 1 1 200) = []"
    "queuedOperations (example_job [1, 2] 1 1 200) = [0, 1]"
    by code_simp+
  from cooldown_before_every_dispatch [of "example_job [1, 2] 1 1 200" 1 True] c
  show ?thesis by (simp add: setTimeout_def emit_def)
qed

subsection \<open>The completion of a job\<close>

lemma completion_sound_cong:
  "emitted t = emitted s \<Longrightarrow> job_status t = job_status s \<Longrightarrow>
   completion_sound s \<Longrightarrow> completion_sound t"
  by (simp add: completion_sound_def)

lemma completion_sound_emit:
  "sig \<noteq> JOB_COMPLETED \<Longrightarrow> completion_sound s \<Longrightarrow> completion_sound (emit sig s)"
  by (simp add: completion_sound_def emit_def count_signal_def)

lemma completion_sound_op_upd: "completion_sound s \<Longrightarrow> completion_sound (op_upd r g s)"
  by (erule completion_sound_cong [rotated 2]) (simp_all add: op_upd_def)

lemma completion_sound_admit: "completion_sound s \<Longrightarrow> completion_sound (admit s)"
  by (erule completion_sound_cong [rotated 2])
     (simp_all add: admit_def setTimeout_def op_upd_def Let_def split: list.splits)

lemma completion_sound_startNextOperation:
  "completion_sound s \<Longrightarrow> completion_sound (startNextOperation c s)"
proof (induction c s rule: startNextOperation.induct)
  case (1 cooled s)
  show ?case
  proof (cases "\<not> (cooldown s \<noteq> 0 \<and> \<not> cooled) \<and> \<not> isFull s \<and> \<not> isComplete s \<and> hasPending s")
    case True
    then have "startNextOperation cooled s = startNextOperation False (admit s)"
      by (auto simp: startNextOperation.simps [of cooled s])
    with True 1 show ?thesis
      by (simp add: completion_sound_admit)
  next
    case False
    with "1.prems" show ?thesis
      by (auto simp: startNextOperation.simps [of cooled s] completion_sound_def setTimeout_def
          emit_def count_signal_def observe_def isComplete_def hasPending_def)
  qed
qed

lemma completion_sound_handleOperationComplete:
  "completion_sound s \<Longrightarrow> completion_sound (handleOperationComplete i final s)"
  unfolding handleOperationComplete_def Let_def
  by (rule completion_sound_startNextOperation) (simp add: completion_sound_def)

lemma completion_sound_invoke_once:
  "(\<And>s. completion_sound s \<Longrightarrow> completion_sound (listener (remove s))) \<Longrightarrow>
   completion_sound s \<Longrightarrow> completion_sound (invoke_once n remove listener s)"
  by (induction n arbitrary: s) simp_all

lemma completion_sound_onStarted: "completion_sound s \<Longrightarrow> completion_sound (onStarted r s)"
  by (simp add: onStarted_def emitOperation_def completion_sound_emit)

lemma completion_sound_onCompleted: "completion_sound s \<Longrightarrow> completion_sound (onCompleted r s)"
  by (simp add: onCompleted_def emitOperation_def Let_def completion_sound_emit
      completion_sound_handleOperationComplete)

lemma completion_sound_onFailed: "completion_sound s \<Longrightarrow> completion_sound (onFailed r s)"
proof -
  assume s: "completion_sound s"
  let ?s1 = "emitOperation (OPERATION_FAILED (op_id (the_op s r))) s"
  have 1: "completion_sound ?s1"
    using s by (simp add: emitOperation_def completion_sound_emit)
  then have 2: "completion_sound (?s1\<lparr>queuedOperations := queuedOperations ?s1 @ [r]\<rparr>)"
    by (simp add: completion_sound_def)
  from 1 2 show ?thesis
    by (simp add: onFailed_def Let_def completion_sound_handleOperationComplete)
qed

lemma completion_sound_emit_started: "completion_sound s \<Longrightarrow> completion_sound (emit_started r s)"
  unfolding emit_started_def
  by (rule completion_sound_invoke_once)
     (simp_all add: completion_sound_onStarted completion_sound_op_upd, simp add: completion_sound_def)

lemma completion_sound_emit_completed: "completion_sound s \<Longrightarrow> completion_sound (emit_completed r s)"
  unfolding emit_completed_def
  by (rule completion_sound_invoke_once)
     (simp_all add: completion_sound_onCompleted completion_sound_op_upd, simp add: completion_sound_def)

lemma completion_sound_emit_failed: "completion_sound s \<Longrightarrow> completion_sound (emit_failed r s)"
  unfolding emit_failed_def
  by (rule completion_sound_invoke_once)
     (simp_all add: completion_sound_onFailed completion_sound_op_upd, simp add: completion_sound_def)

lemma completion_sound_operation_start:
  "completion_sound s \<Longrightarrow> completion_sound (operation_start r s)"
proof -
  assume s: "completion_sound s"
  then have "completion_sound (emit_started r (op_upd r (\<lambda>p. p\<lparr>op_status := STARTED\<rparr>) s))"
    by (simp add: completion_sound_emit_started completion_sound_op_upd)
  then have "completion_sound
     (emit_started r (op_upd r (\<lambda>p. p\<lparr>op_status := STARTED\<rparr>) s)
        \<lparr>calls := calls (emit_started r (op_upd r (\<lambda>p. p\<lparr>op_status := STARTED\<rparr>) s)) @ [r],
         promises := promises (emit_started r (op_upd r (\<lambda>p. p\<lparr>op_status := STARTED\<rparr>) s)) @ [r]\<rparr>)"
    by (simp add: completion_sound_def)
  with s show ?thesis by (simp add: operation_start_def Let_def)
qed

lemma completion_sound_step:
  assumes "completion_sound s" "step e s = Some s'" "e \<noteq> Start"
  shows "completion_sound s'"
proof (cases e)
  case Start
  with assms show ?thesis by simp
next
  case (Fire n)
  have t: "completion_sound (s\<lparr>timers := take n (timers s) @ drop (Suc n) (timers s)\<rparr>)"
    using assms(1) by (simp add: completion_sound_def)
  from assms(2) Fire show ?thesis
    by (auto simp: step_def Let_def completion_sound_operation_start [OF t]
        completion_sound_startNextOperation [OF t] split: if_splits timer.splits)
next
  case (Settle r x)
  have t: "completion_sound (s\<lparr>promises := remove1 r (promises s)\<rparr>)"
    using assms(1) by (simp add: completion_sound_def)
  from assms(2) Settle show ?thesis
    by (auto simp: step_def Let_def operation_resolved_def operation_rejected_def
        completion_sound_emit_completed completion_sound_emit_failed
        completion_sound_op_upd [OF t] split: if_splits settled.splits)
qed

lemma completion_sound_run:
  "completion_sound s \<Longrightarrow> run es s = Some s' \<Longrightarrow> Start \<notin> set es \<Longrightarrow> completion_sound s'"
proof (induction es arbitrary: s)
  case Nil
  then show ?case by simp
next
  case (Cons e es)
  then show ?case
    by (auto split: option.splits dest: completion_sound_step)
qed

lemma completion_sound_job_start:
  "job_status s \<noteq> COMPLETED \<Longrightarrow> completion_sound s \<Longrightarrow> completion_sound (job_start s)"
proof -
  assume a: "job_status s \<noteq> COMPLETED" "completion_sound s"
  then have "completion_sound (emit JOB_STARTED (s\<lparr>job_status := STARTED\<rparr>))"
    by (simp add: completion_sound_def emit_def count_signal_def)
  with a show ?thesis
    by (simp add: job_start_def completion_sound_startNextOperation)
qed

text \<open>
  C2. A Job that is started once is claimed to emit JOB_COMPLETED exactly once, at an instant
  when the backlog is empty and the counter is zero. Job with the single element 1, one
  operation at a time, two failures allowed, a cooldown of 200 ms; the first attempt fails and
  the second succeeds. The retried operation carries two listeners for its completion (one per
  admission); both run \<^verbatim>\<open>handleOperationComplete\<close>, the counter goes to -1, and
  \<^verbatim>\<open>isComplete()\<close> is false at every later call of the dispatcher. Every attempt has
  settled, every timer has fired, the operation is COMPLETED and nothing is pending: the job
  stays STARTED and has not emitted JOB_COMPLETED.
\<close>

theorem job_never_completes_after_retry:
  "after [Start, Fire 0, Fire 0, Settle 0 (Reject (Some ''no'')), Fire 0, Fire 0, Fire 1, Fire 0,
          Settle 0 (Resolve (Some ''yes'')), Fire 0, Fire 0]
     (example_job [1] 1 2 200)
     (\<lambda>s. (job_status s, count_signal JOB_COMPLETED (emitted s), map op_status (operations s),
           queuedOperations s, numCurrentOperations s, completedOperations s,
           timers s, promises s))
   = Some (STARTED, 0, [COMPLETED], [], - 1, [Some 0, None], [], [])"
  by code_simp

text \<open>
  A job whose resolver never settles does not complete either: after \<^verbatim>\<open>start()\<close> and the
  start of the only operation no timer is pending, and nothing but the settlement of the
  promise lets the job go on.
\<close>

lemma job_not_completed_while_attempt_unsettled:
  "after [Start, Fire 0] (example_job [1] 1 1 0)
     (\<lambda>s. (job_status s, count_signal JOB_COMPLETED (emitted s), timers s, promises s))
   = Some (STARTED, 0, [], [0])"
  by code_simp

text \<open>
  What every run of a Job that is started once keeps: JOB_COMPLETED is emitted at most once,
  and every emit of it happens at an instant when \<^verbatim>\<open>queuedOperations\<close> is empty and
  \<^verbatim>\<open>numCurrentOperations\<close> is zero.
\<close>

lemma job_completed_at_most_once:
  assumes "run (Start # es) (new_job nm ds dataToId maxConcurrent maxFailures cool thr) = Some s"
    and "Start \<notin> set es"
  shows "count_signal JOB_COMPLETED (emitted s) \<le> 1 \<and>
         list_all (\<lambda>x. fst x = JOB_COMPLETED \<longrightarrow> seen_queued (snd x) = 0 \<and> seen_count (snd x) = 0)
           (emitted s)"
proof -
  let ?j = "new_job nm ds dataToId maxConcurrent maxFailures cool thr"
  have "completion_sound ?j"
    by (simp add: completion_sound_def new_job_def count_signal_def)
  moreover have "job_status ?j \<noteq> COMPLETED"
    by (simp add: new_job_def)
  ultimately have "completion_sound (job_start ?j)"
    by (intro completion_sound_job_start)
  moreover from assms(1) have "run es (job_start ?j) = Some s"
    by (simp add: step_def)
  ultimately have "completion_sound s"
    using assms(2) by (rule completion_sound_run)
  then show ?thesis
    by (simp add: completion_sound_def)
qed

lemma job_completed_at_most_once_example:
  "run (Start # [Fire 0, Settle 0 (Resolve (Some ''yes''))])
     (new_job ''My Job'' [1] (\<lambda>d i. d) 1 1 0 500) = Some (completed_job 0) \<and>
   Start \<notin> set [Fire 0, Settle 0 (Resolve (Some ''yes''))] \<and>
   count_signal JOB_COMPLETED (emitted (completed_job 0)) = 1 \<and>
   map (seen_queued \<circ> snd) (filter (\<lambda>x. fst x = JOB_COMPLETED) (emitted (completed_job 0))) = [0]"
proof -
  have r: "run (Start # [Fire 0, Settle 0 (Resolve (Some ''yes''))])
     (new_job ''My Job'' [1] (\<lambda>d i. d) 1 1 0 500) = Some (completed_job 0)"
    by code_simp
  have n: "Start \<notin> set [Fire 0, Settle 0 (Resolve (Some ''yes''))]"
    by simp
  have c: "count_signal JOB_COMPLETED (emitted (completed_job 0)) = 1"
    "map (seen_queued \<circ> snd) (filter (\<lambda>x. fst x = JOB_COMPLETED) (emitted (completed_job 0))) = [0]"
    by code_simp+
  from job_completed_at_most_once [OF r n] r n c show ?thesis
    by simp
qed

subsection \<open>The result of an operation\<close>

text \<open>
  C7, as claimed: the result is set if and only if the status is COMPLETED or FAILED, also
  while a retry is in flight. Job with the single element 1, two failures allowed. When the
  first attempt rejects with a reason and the retry starts, the operation is STARTED with the
  reason of the first attempt still in \<^verbatim>\<open>result\<close> (\<^verbatim>\<open>start()\<close> does not clear it). When
  the first attempt fulfils with \<^verbatim>\<open>undefined\<close> (a resolver that returns no value), the
  operation is COMPLETED and its result is \<^verbatim>\<open>undefined\<close>.
\<close>

theorem retry_in_flight_keeps_result:
  "after [Start, Fire 0, Settle 0 (Reject (Some ''no'')), Fire 0] (example_job [1] 1 2 0)
     (\<lambda>s. map (\<lambda>p. (op_status p, op_result p)) (operations s))
   = Some [(STARTED, Some ''no'')] \<and>
   after [Start, Fire 0, Settle 0 (Resolve None)] (example_job [1] 1 2 0)
     (\<lambda>s. map (\<lambda>p. (op_status p, op_result p)) (operations s))
   = Some [(COMPLETED, None)]"
  by code_simp

lemma outcomes_op_upd:
  "(\<And>p. op_status (g p) = op_status p \<and> op_result (g p) = op_result p) \<Longrightarrow>
   outcomes (op_upd r g s) = outcomes s"
  by (simp add: outcomes_def op_upd_def map_update_same)

lemma outcomes_admit: "outcomes (admit s) = outcomes s"
proof (cases "queuedOperations s")
  case Nil
  then show ?thesis by (simp add: admit_def)
next
  case (Cons r rest)
  have "outcomes (admit s) =
    outcomes (op_upd r (\<lambda>p. p\<lparr>once_started := Suc (once_started p),
                                      once_completed := Suc (once_completed p),
                                      once_failed := Suc (once_failed p)\<rparr>) s)"
    using Cons by (simp add: admit_def Let_def setTimeout_def outcomes_def op_upd_def)
  then show ?thesis by (simp add: outcomes_op_upd)
qed

lemma outcomes_startNextOperation: "outcomes (startNextOperation c s) = outcomes s"
proof (induction c s rule: startNextOperation.induct)
  case (1 cooled s)
  show ?case
  proof (cases "\<not> (cooldown s \<noteq> 0 \<and> \<not> cooled) \<and> \<not> isFull s \<and> \<not> isComplete s \<and> hasPending s")
    case True
    then have "startNextOperation cooled s = startNextOperation False (admit s)"
      by (auto simp: startNextOperation.simps [of cooled s])
    with True 1 show ?thesis
      by (simp add: outcomes_admit)
  next
    case False
    then show ?thesis
      by (auto simp: startNextOperation.simps [of cooled s] outcomes_def setTimeout_def emit_def)
  qed
qed

lemma outcomes_handleOperationComplete: "outcomes (handleOperationComplete i final s) = outcomes s"
  by (simp add: handleOperationComplete_def Let_def outcomes_startNextOperation)
     (simp add: outcomes_def)

lemma outcomes_emit: "outcomes (emit sig s) = outcomes s"
  by (simp add: outcomes_def emit_def)

lemma outcomes_onStarted: "outcomes (onStarted r s) = outcomes s"
  by (simp add: onStarted_def emitOperation_def outcomes_emit)

lemma outcomes_onCompleted: "outcomes (onCompleted r s) = outcomes s"
  by (simp add: onCompleted_def emitOperation_def Let_def outcomes_handleOperationComplete outcomes_emit)

lemma outcomes_onFailed: "outcomes (onFailed r s) = outcomes s"
  by (simp add: onFailed_def emitOperation_def Let_def outcomes_handleOperationComplete outcomes_emit)
     (simp add: outcomes_def emit_def)

lemma outcomes_emit_started: "outcomes (emit_started r s) = outcomes s"
  unfolding emit_started_def
  by (subst invoke_once_frame) (simp_all add: outcomes_onStarted outcomes_op_upd, simp add: outcomes_def)

lemma outcomes_emit_completed: "outcomes (emit_completed r s) = outcomes s"
  unfolding emit_completed_def
  by (subst invoke_once_frame) (simp_all add: outcomes_onCompleted outcomes_op_upd, simp add: outcomes_def)

lemma outcomes_emit_failed: "outcomes (emit_failed r s) = outcomes s"
  unfolding emit_failed_def
  by (subst invoke_once_frame) (simp_all add: outcomes_onFailed outcomes_op_upd, simp add: outcomes_def)

lemma outcomes_nth:
  "r < length (operations s) \<Longrightarrow> outcomes s ! r = (op_status (operations s ! r), op_result (operations s ! r))"
  by (simp add: outcomes_def)

lemma outcomes_length: "length (outcomes s) = length (operations s)"
  by (simp add: outcomes_def)

lemma outcomes_op_upd_at:
  "outcomes (op_upd r g s) = (outcomes s)[r := (op_status (g (operations s ! r)), op_result (g (operations s ! r)))]"
  by (simp add: outcomes_def op_upd_def map_update)

lemma outcomes_operation_start:
  "outcomes (operation_start r s) = (outcomes s)[r := (STARTED, op_result (operations s ! r))]"
proof (cases "op_status (operations s ! r) = STARTED")
  case True
  have "(outcomes s)[r := (STARTED, op_result (operations s ! r))] = outcomes s"
  proof (cases "r < length (operations s)")
    case True
    with \<open>op_status (operations s ! r) = STARTED\<close> show ?thesis
      by (simp add: outcomes_def list_update_same_conv)
  next
    case False
    then show ?thesis by (simp add: outcomes_def list_update_beyond)
  qed
  with True show ?thesis by (simp add: operation_start_def the_op_def)
next
  case False
  let ?s2 = "emit_started r (op_upd r (\<lambda>p. p\<lparr>op_status := STARTED\<rparr>) s)"
  have "outcomes (?s2\<lparr>calls := calls ?s2 @ [r], promises := promises ?s2 @ [r]\<rparr>) = outcomes ?s2"
    by (simp add: outcomes_def)
  with False show ?thesis
    by (simp add: operation_start_def the_op_def Let_def outcomes_emit_started outcomes_op_upd_at)
qed

lemma outcomes_step:
  assumes "step e s = Some s'"
  shows "outcomes s' =
     (case e of
        Start \<Rightarrow> outcomes s
      | Fire n \<Rightarrow>
          (case timers s ! n of
             StartTimer r d \<Rightarrow> (outcomes s)[r := (STARTED, op_result (operations s ! r))]
           | CooldownTimer d \<Rightarrow> outcomes s)
      | Settle r (Resolve v) \<Rightarrow> (outcomes s)[r := (COMPLETED, v)]
      | Settle r (Reject v) \<Rightarrow> (outcomes s)[r := (FAILED, v)])"
proof (cases e)
  case Start
  have "outcomes (job_start s) = outcomes s"
    by (simp add: job_start_def outcomes_startNextOperation outcomes_emit) (simp add: outcomes_def)
  with assms Start show ?thesis by (simp add: step_def)
next
  case (Fire n)
  let ?t = "s\<lparr>timers := take n (timers s) @ drop (Suc n) (timers s)\<rparr>"
  have t: "outcomes ?t = outcomes s" "operations ?t = operations s"
    by (simp_all add: outcomes_def)
  from assms Fire show ?thesis
    using t
    by (auto simp: step_def Let_def outcomes_startNextOperation outcomes_operation_start
        split: if_splits timer.splits)
next
  case (Settle r x)
  let ?t = "s\<lparr>promises := remove1 r (promises s)\<rparr>"
  have t: "outcomes ?t = outcomes s"
    by (simp add: outcomes_def)
  from assms Settle show ?thesis
    using t
    by (auto simp: step_def Let_def operation_resolved_def operation_rejected_def
        outcomes_emit_completed outcomes_emit_failed outcomes_op_upd_at
        split: if_splits settled.splits)
qed

lemma nth_update_at: "r < length xs \<Longrightarrow> xs[i := x] ! r = (if i = r then x else xs ! r)"
  by simp

text \<open>One event, seen from the operation at \<open>r\<close>.\<close>

lemma outcome_step:
  assumes "step e s = Some s'" "r < length (operations s)"
  shows "length (operations s') = length (operations s)"
    and "settlement r e = Some x \<Longrightarrow>
           (op_status (operations s' ! r), op_result (operations s' ! r)) = x"
    and "settlement r e = None \<Longrightarrow>
           op_result (operations s' ! r) = op_result (operations s ! r) \<and>
           (op_status (operations s' ! r) = op_status (operations s ! r) \<or>
            op_status (operations s' ! r) = STARTED)"
proof -
  note o = outcomes_step [OF assms(1)]
  have "length (outcomes s') = length (outcomes s)"
    unfolding o by (simp split: event.splits timer.splits settled.splits)
  then show l: "length (operations s') = length (operations s)"
    by (simp add: outcomes_length)
  have n: "outcomes s' ! r = (op_status (operations s' ! r), op_result (operations s' ! r))"
    using l assms(2) by (simp add: outcomes_nth)
  have m: "outcomes s ! r = (op_status (operations s ! r), op_result (operations s ! r))"
    using assms(2) by (simp add: outcomes_nth)
  have k: "r < length (outcomes s)"
    using assms(2) by (simp add: outcomes_length)
  show "(op_status (operations s' ! r), op_result (operations s' ! r)) = x"
    if "settlement r e = Some x"
  proof -
    from that have "outcomes s' ! r = x"
      unfolding o using k
      by (cases e) (auto simp: nth_update_at split: settled.splits if_splits)
    with n show ?thesis by simp
  qed
  show "op_result (operations s' ! r) = op_result (operations s ! r) \<and>
           (op_status (operations s' ! r) = op_status (operations s ! r) \<or>
            op_status (operations s' ! r) = STARTED)"
    if "settlement r e = None"
  proof -
    from that have "outcomes s' ! r = (op_status (operations s ! r), op_result (operations s ! r)) \<or>
        outcomes s' ! r = (STARTED, op_result (operations s ! r))"
      unfolding o using m k
      by (cases e) (auto simp: nth_update_at split: timer.splits settled.splits if_splits)
    with n show ?thesis by auto
  qed
qed

lemma outcome_run:
  assumes "run es s = Some s'" "r < length (operations s)"
  shows "length (operations s') = length (operations s) \<and>
         op_result (operations s' ! r)
           = (if settlements r es = [] then op_result (operations s ! r)
              else snd (last (settlements r es))) \<and>
         (op_status (operations s' ! r) = STARTED \<or>
          op_status (operations s' ! r)
            = (if settlements r es = [] then op_status (operations s ! r)
               else fst (last (settlements r es))))"
  using assms
proof (induction es arbitrary: s)
  case Nil
  then show ?case by simp
next
  case (Cons e es)
  then obtain s1 where s1: "step e s = Some s1" and r: "run es s1 = Some s'"
    by (auto split: option.splits)
  note st = outcome_step [OF s1 Cons.prems(2)]
  from st(1) Cons.prems(2) have "r < length (operations s1)" by simp
  from Cons.IH [OF r this] have ih:
    "length (operations s') = length (operations s1)"
    "op_result (operations s' ! r)
           = (if settlements r es = [] then op_result (operations s1 ! r)
              else snd (last (settlements r es)))"
    "op_status (operations s' ! r) = STARTED \<or>
          op_status (operations s' ! r)
            = (if settlements r es = [] then op_status (operations s1 ! r)
               else fst (last (settlements r es)))"
    by simp_all
  show ?case
  proof (cases "settlement r e")
    case None
    from st(3) [OF None] ih st(1) None show ?thesis
      by auto
  next
    case (Some x)
    from st(2) [OF Some] have "op_status (operations s1 ! r) = fst x" "op_result (operations s1 ! r) = snd x"
      by auto
    with ih st(1) Some show ?thesis
      by auto
  qed
qed

lemma settlements_status:
  "settlements r es \<noteq> [] \<Longrightarrow>
   fst (last (settlements r es)) = COMPLETED \<or> fst (last (settlements r es)) = FAILED"
proof (induction es)
  case Nil
  then show ?case by simp
next
  case (Cons e es)
  then show ?case
    by (cases e; cases "case e of Settle y w \<Rightarrow> w | _ \<Rightarrow> Resolve None")
       (auto split: if_splits)
qed

text \<open>
  C7, amended. At every point of every run, for every operation: while its status is PENDING
  none of its attempts has settled and its result is unset; while its status is COMPLETED or
  FAILED, status and result are those of its most recent settled attempt (COMPLETED with the
  value it resolved with, FAILED with the reason it rejected with); while its status is
  STARTED, its result is unset if none of its attempts has settled and is otherwise the value
  or reason of its most recent settled attempt, so the reason of the last failure while a
  retry is in flight.
\<close>

theorem result_is_latest_settlement:
  fixes s :: "('k, 'd, 'v) job"
  assumes "run es (new_job nm ds dataToId maxConcurrent maxFailures cool thr) = Some s"
    and "r < length ds"
  shows "(op_status (the_op s r) = PENDING \<longrightarrow>
            settlements r es = [] \<and> op_result (the_op s r) = None) \<and>
         (op_status (the_op s r) = STARTED \<longrightarrow>
            op_result (the_op s r)
              = (if settlements r es = [] then None else snd (last (settlements r es)))) \<and>
         (op_status (the_op s r) = COMPLETED \<or> op_status (the_op s r) = FAILED \<longrightarrow>
            settlements r es \<noteq> [] \<and>
            (op_status (the_op s r), op_result (the_op s r)) = last (settlements r es))"
proof -
  let ?j = "new_job nm ds dataToId maxConcurrent maxFailures cool thr :: ('k, 'd, 'v) job"
  have l: "r < length (operations ?j)"
    using assms(2) by (simp add: new_job_def)
  have i: "op_status (operations ?j ! r) = PENDING" "op_result (operations ?j ! r) = None"
    using assms(2) by (simp_all add: new_job_def new_operation_def)
  from outcome_run [OF assms(1) l] i settlements_status [of r es] show ?thesis
    by (cases "settlements r es = []") (auto simp: the_op_def prod_eq_iff)
qed

theorem result_is_latest_settlement_witness:
  "run [Start, Fire 0, Settle 0 (Reject (Some ''no'')), Fire 0]
       (new_job ''My Job'' [1] (\<lambda>d i. d) 1 2 0 500)
     = Some (the (run [Start, Fire 0, Settle 0 (Reject (Some ''no'')), Fire 0] (example_job [1] 1 2 0))) \<and>
   run [Start, Fire 0, Settle 0 (Resolve (Some ''yes''))]
       (new_job ''My Job'' [1, 2] (\<lambda>d i. d) 1 2 0 500)
     = Some (the (run [Start, Fire 0, Settle 0 (Resolve (Some ''yes''))] (example_job [1, 2] 1 2 0))) \<and>
   (0 :: nat) < length [1 :: nat] \<and> (0 :: nat) < length [1 :: nat, 2] \<and>
   (1 :: nat) < length [1 :: nat, 2] \<and>
   settlements 0 [Start, Fire 0, Settle 0 (Reject (Some ''no'')), Fire 0] = [(FAILED, Some ''no'')] \<and>
   settlements 0 [Start, Fire 0, Settle 0 (Resolve (Some ''yes''))] = [(COMPLETED, Some ''yes'')] \<and>
   settlements 1 [Start, Fire 0, Settle 0 (Resolve (Some ''yes''))]
     = ([] :: (status \<times> string option) list) \<and>
   after [Start, Fire 0, Settle 0 (Reject (Some ''no'')), Fire 0] (example_job [1] 1 2 0)
     (\<lambda>s. (op_status (the_op s 0), op_result (the_op s 0)))
     = Some (STARTED, Some ''no'') \<and>
   after [Start, Fire 0, Settle 0 (Resolve (Some ''yes''))] (example_job [1, 2] 1 2 0)
     (\<lambda>s. (op_status (the_op s 0), op_result (the_op s 0), op_status (the_op s 1),
           op_result (the_op s 1)))
     = Some (COMPLETED, Some ''yes'', PENDING, None)"
proof -
  have a: "run [Start, Fire 0, Settle 0 (Reject (Some ''no'')), Fire 0]
       (new_job ''My Job'' [1] (\<lambda>d i. d) 1 2 0 500)
     = Some (the (run [Start, Fire 0, Settle 0 (Reject (Some ''no'')), Fire 0] (example_job [1] 1 2 0)))"
    by code_simp
  have b: "run [Start, Fire 0, Settle 0 (Resolve (Some ''yes''))]
       (new_job ''My Job'' [1, 2] (\<lambda>d i. d) 1 2 0 500)
     = Some (the (run [Start, Fire 0, Settle 0 (Resolve (Some ''yes''))] (example_job [1, 2] 1 2 0)))"
    by code_simp
  have l: "(0 :: nat) < length [1 :: nat]" "(0 :: nat) < length [1 :: nat, 2]"
    "(1 :: nat) < length [1 :: nat, 2]"
    by simp_all
  have v: "settlements 0 [Start, Fire 0, Settle 0 (Reject (Some ''no'')), Fire 0] = [(FAILED, Some ''no'')]"
    "settlements 0 [Start, Fire 0, Settle 0 (Resolve (Some ''yes''))] = [(COMPLETED, Some ''yes'')]"
    "settlements 1 [Start, Fire 0, Settle 0 (Resolve (Some ''yes''))]
       = ([] :: (status \<times> string option) list)"
    by simp_all
  have w: "after [Start, Fire 0, Settle 0 (Reject (Some ''no'')), Fire 0] (example_job [1] 1 2 0)
     (\<lambda>s. (op_status (the_op s 0), op_result (the_op s 0)))
     = Some (STARTED, Some ''no'')"
    "after [Start, Fire 0, Settle 0 (Resolve (Some ''yes''))] (example_job [1, 2] 1 2 0)
     (\<lambda>s. (op_status (the_op s 0), op_result (the_op s 0), op_status (the_op s 1),
           op_result (the_op s 1)))
     = Some (COMPLETED, Some ''yes'', PENDING, None)"
    by code_simp+
  from result_is_latest_settlement [OF a l(1)] result_is_latest_settlement [OF b l(2)]
    result_is_latest_settlement [OF b l(3)] a b l v w
  show ?thesis
    by simp
qed

subsection \<open>The guards of start()\<close>











text \<open>
  The listeners the Job registers are counted by \<^verbatim>\<open>once_started\<close>: one per admission since
  the last start. An operation that the doubled failure emit has admitted twice has two start
  timers and two such listeners; the first timer starts the attempt, the second finds the
  operation STARTED and does nothing, and the Job has forwarded the one signal of the operation
  twice. Job with the single element 1, two failures allowed, no cooldown, before and after
  the two timers of the retry.
\<close>

lemma twin_start_forwards_twice:
  "after [Start, Fire 0, Settle 0 (Reject (Some ''no''))] (example_job [1] 1 2 0)
     (\<lambda>s. (timers s, map once_started (operations s), count_list (calls s) 0,
           count_op_signal 0 (OPERATION_STARTED 1) (op_emitted s),
           count_signal (OPERATION_STARTED 1) (emitted s)))
   = Some ([StartTimer 0 500, StartTimer 0 500], [2], 1, 1, 1) \<and>
   after [Start, Fire 0, Settle 0 (Reject (Some ''no'')), Fire 0, Fire 0] (example_job [1] 1 2 0)
     (\<lambda>s. (timers s, map once_started (operations s), count_list (calls s) 0,
           count_op_signal 0 (OPERATION_STARTED 1) (op_emitted s),
           count_signal (OPERATION_STARTED 1) (emitted s)))
   = Some ([], [0], 2, 2, 3)"
  by code_simp

lemma job_start_completes_at_once:
  assumes "job_status s \<noteq> STARTED" "queuedOperations s = []" "numCurrentOperations s = 0"
    "\<not> isFull s" "cooldown s = 0"
  shows "emitted (job_start s) = emitted s @ [(JOB_STARTED, observe s), (JOB_COMPLETED, observe s)]"
  using assms
  by (simp add: job_start_def startNextOperation.simps [of False] isFull_def isComplete_def
      hasPending_def emit_def observe_def)

lemma job_start_completes_after_cooldown:
  assumes "job_status s \<noteq> STARTED" "queuedOperations s = []" "numCurrentOperations s = 0"
    "\<not> isFull s" "cooldown s \<noteq> 0"
  shows "map_option emitted (step (Fire (length (timers s))) (job_start s))
         = Some (emitted s @ [(JOB_STARTED, observe s), (JOB_COMPLETED, observe s)])"
  using assms
  by (simp add: job_start_def startNextOperation.simps [of False] startNextOperation.simps [of True]
      step_def setTimeout_def isFull_def isComplete_def hasPending_def emit_def observe_def Let_def)

text \<open>
  C10. On a COMPLETED Job all of whose operations are finalized, \<^verbatim>\<open>start()\<close> is claimed to
  emit JOB_STARTED and JOB_COMPLETED again. Job with the single element 1, one operation at a
  time, two failures allowed, no cooldown; the first attempt fails and the second succeeds.
  The operation has been admitted three times (twice after its failure, by the doubled failure
  emit) and carries three listeners for its completion, each of which decrements the counter:
  the job is COMPLETED, its operation is COMPLETED, nothing is queued or pending, and the
  counter is -2. \<^verbatim>\<open>start()\<close> emits JOB_STARTED, the dispatcher finds the counter different
  from zero and returns: no second JOB_COMPLETED, and the job stays STARTED.
\<close>

theorem restart_of_completed_job_never_completes:
  "after [Start, Fire 0, Settle 0 (Reject (Some ''no'')), Fire 0, Fire 0,
          Settle 0 (Resolve (Some ''yes''))]
     (example_job [1] 1 2 0)
     (\<lambda>s. (job_status s, map op_status (operations s), queuedOperations s,
           numCurrentOperations s, timers s, promises s,
           count_signal JOB_STARTED (emitted s), count_signal JOB_COMPLETED (emitted s)))
   = Some (COMPLETED, [COMPLETED], [], - 2, [], [], 1, 1) \<and>
   after [Start, Fire 0, Settle 0 (Reject (Some ''no'')), Fire 0, Fire 0,
          Settle 0 (Resolve (Some ''yes'')), Start]
     (example_job [1] 1 2 0)
     (\<lambda>s. (job_status s, map op_status (operations s), queuedOperations s,
           numCurrentOperations s, timers s, promises s,
           count_signal JOB_STARTED (emitted s), count_signal JOB_COMPLETED (emitted s)))
   = Some (STARTED, [COMPLETED], [], - 2, [], [], 2, 1)"
  by code_simp

text \<open>
  What the guard does on every state: on a Job whose status is COMPLETED, \<^verbatim>\<open>start()\<close> emits
  JOB_STARTED again; when moreover the backlog is empty, the counter is zero and the job is
  not full, JOB_COMPLETED follows, in the same call without cooldown and when the cooldown
  timer set by the call fires otherwise. On an Operation whose status is COMPLETED or FAILED,
  \<^verbatim>\<open>start()\<close> calls the resolver again.
\<close>

lemma start_reenters_unless_started:
  "(job_status s = COMPLETED \<longrightarrow>
      (\<exists>rest. emitted (job_start s) = emitted s @ (JOB_STARTED, observe s) # rest) \<and>
      (queuedOperations s = [] \<and> numCurrentOperations s = 0 \<and> \<not> isFull s \<longrightarrow>
         (cooldown s = 0 \<longrightarrow>
            emitted (job_start s)
              = emitted s @ [(JOB_STARTED, observe s), (JOB_COMPLETED, observe s)]) \<and>
         (cooldown s \<noteq> 0 \<longrightarrow>
            map_option emitted (step (Fire (length (timers s))) (job_start s))
              = Some (emitted s @ [(JOB_STARTED, observe s), (JOB_COMPLETED, observe s)])))) \<and>
   (op_status (the_op s r) = COMPLETED \<or> op_status (the_op s r) = FAILED \<longrightarrow>
      calls (operation_start r s) = calls s @ [r])"
proof (intro conjI impI)
  assume c: "job_status s = COMPLETED"
  obtain rest where
    "emitted (startNextOperation False (emit JOB_STARTED (s\<lparr>job_status := STARTED\<rparr>)))
       = emitted (emit JOB_STARTED (s\<lparr>job_status := STARTED\<rparr>)) @ rest"
    using emitted_startNextOperation by blast
  with c show "\<exists>rest. emitted (job_start s) = emitted s @ (JOB_STARTED, observe s) # rest"
    by (simp add: job_start_def emit_def)
next
  assume "job_status s = COMPLETED"
    and "queuedOperations s = [] \<and> numCurrentOperations s = 0 \<and> \<not> isFull s"
    and "cooldown s = 0"
  then show "emitted (job_start s)
      = emitted s @ [(JOB_STARTED, observe s), (JOB_COMPLETED, observe s)]"
    by (simp add: job_start_completes_at_once)
next
  assume "job_status s = COMPLETED"
    and "queuedOperations s = [] \<and> numCurrentOperations s = 0 \<and> \<not> isFull s"
    and "cooldown s \<noteq> 0"
  then show "map_option emitted (step (Fire (length (timers s))) (job_start s))
      = Some (emitted s @ [(JOB_STARTED, observe s), (JOB_COMPLETED, observe s)])"
    by (simp add: job_start_completes_after_cooldown)
next
  assume "op_status (the_op s r) = COMPLETED \<or> op_status (the_op s r) = FAILED"
  then show "calls (operation_start r s) = calls s @ [r]"
    by (auto simp: operation_start_def Let_def calls_emit_started op_upd_def)
qed

lemma start_reenters_unless_started_example:
  "job_status (completed_job 0) = COMPLETED \<and>
   queuedOperations (completed_job 0) = [] \<and> numCurrentOperations (completed_job 0) = 0 \<and>
   \<not> isFull (completed_job 0) \<and> cooldown (completed_job 0) = 0 \<and>
   count_signal JOB_STARTED (emitted (job_start (completed_job 0))) = 2 \<and>
   count_signal JOB_COMPLETED (emitted (job_start (completed_job 0))) = 2 \<and>
   job_status (completed_job 200) = COMPLETED \<and>
   queuedOperations (completed_job 200) = [] \<and> numCurrentOperations (completed_job 200) = 0 \<and>
   \<not> isFull (completed_job 200) \<and> cooldown (completed_job 200) \<noteq> 0 \<and>
   map_option (count_signal JOB_COMPLETED \<circ> emitted)
     (step (Fire 0) (job_start (completed_job 200))) = Some 2 \<and>
   op_status (the_op (completed_job 0) 0) = COMPLETED \<and>
   calls (operation_start 0 (completed_job 0)) = [0, 0]"
proof -
  have a: "job_status (completed_job 0) = COMPLETED" "queuedOperations (completed_job 0) = []"
    "numCurrentOperations (completed_job 0) = 0" "\<not> isFull (completed_job 0)"
    "cooldown (completed_job 0) = 0" "op_status (the_op (completed_job 0) 0) = COMPLETED"
    "calls (completed_job 0) = [0]"
    "count_signal JOB_STARTED (emitted (completed_job 0)) = 1"
    "count_signal JOB_COMPLETED (emitted (completed_job 0)) = 1"
    by code_simp+
  have b: "job_status (completed_job 200) = COMPLETED" "queuedOperations (completed_job 200) = []"
    "numCurrentOperations (completed_job 200) = 0" "\<not> isFull (completed_job 200)"
    "cooldown (completed_job 200) = 200" "timers (completed_job 200) = []"
    "count_signal JOB_COMPLETED (emitted (completed_job 200)) = 1"
    by code_simp+
  from start_reenters_unless_started [of "completed_job 0" 0] a
  have 1: "count_signal JOB_STARTED (emitted (job_start (completed_job 0))) = 2 \<and>
   count_signal JOB_COMPLETED (emitted (job_start (completed_job 0))) = 2 \<and>
   calls (operation_start 0 (completed_job 0)) = [0, 0]"
    by (simp add: count_signal_def)
  from start_reenters_unless_started [of "completed_job 200" 0] b
  have "map_option emitted (step (Fire 0) (job_start (completed_job 200)))
     = Some (emitted (completed_job 200) @
         [(JOB_STARTED, observe (completed_job 200)), (JOB_COMPLETED, observe (completed_job 200))])"
    by simp
  then have 2: "map_option (count_signal JOB_COMPLETED \<circ> emitted)
     (step (Fire 0) (job_start (completed_job 200))) = Some 2"
    using b(7) by (auto simp: count_signal_def)
  from a b 1 2 show ?thesis by simp
qed

subsection \<open>The retry budget\<close>

text \<open>
  C4. The resolver of an operation that fails on every attempt is claimed to be called at most
  \<^verbatim>\<open>maxFailuresPerOperation\<close> times in total. Job with the single element 1, one operation at
  a time, two failures allowed, no cooldown, the resolver always rejecting. The first rejection
  emits the failure event twice: the first emit queues the operation again and the dispatcher
  admits it at once, registering a new failure listener, which the second emit runs, so that
  the operation is admitted a second time and two start timers are pending. The first timer
  starts the second attempt. After its rejection the operation is in
  \<^verbatim>\<open>completedOperations\<close> with \<^verbatim>\<open>timesFailed = 2\<close>, the resolver has been called twice, and
  the other start timer is still pending; when it fires, \<^verbatim>\<open>start()\<close> finds the status FAILED
  and calls the resolver a third time.
\<close>

theorem third_attempt_with_budget_two:
  "after [Start, Fire 0, Settle 0 (Reject (Some ''no'')), Fire 0, Settle 0 (Reject (Some ''no''))]
     (example_job [1] 1 2 0)
     (\<lambda>s. (maxFailuresPerOperation s, completedOperations s, map timesFailed (operations s),
           map op_status (operations s), count_list (calls s) 0, timers s))
   = Some (2, [Some 0], [2], [FAILED], 2, [StartTimer 0 500]) \<and>
   after [Start, Fire 0, Settle 0 (Reject (Some ''no'')), Fire 0, Settle 0 (Reject (Some ''no'')),
          Fire 0, Settle 0 (Reject (Some ''no''))]
     (example_job [1] 1 2 0)
     (\<lambda>s. (maxFailuresPerOperation s, completedOperations s, map timesFailed (operations s),
           map op_status (operations s), count_list (calls s) 0, timers s))
   = Some (2, [Some 0], [3], [FAILED], 3, [])"
  by code_simp

text \<open>
  The predicates \<^verbatim>\<open>tracked\<close>, \<^verbatim>\<open>admissible\<close> and \<^verbatim>\<open>failing\<close> are carried through the
  dispatcher, the three listeners, the emits of an operation and every event of a run.
\<close>

lemma tracked_admissible: "tracked s r \<Longrightarrow> admissible s r"
  unfolding tracked_def admissible_def
  by (cases "queuedOperations s") (auto dest: list.set_sel(2))

lemma admissible_tracked:
  "admissible s r \<Longrightarrow> queuedOperations s = [] \<or> cooldown s \<noteq> 0 \<Longrightarrow> tracked s r"
  unfolding tracked_def admissible_def
  by (cases "queuedOperations s") (auto split: if_splits)

text \<open>What one admission changes.\<close>

lemma admit_Nil: "queuedOperations s = [] \<Longrightarrow> admit s = s"
  by (simp add: admit_def)

lemma map_update_id:
  "f y = f (xs ! r) \<Longrightarrow> map f (xs[r := y]) = map f xs"
  by (cases "r < length xs") (simp_all add: map_update list_update_same_conv list_update_beyond)

lemma admit_fields:
  assumes "queuedOperations s = h # rest"
  shows "queuedOperations (admit s) = rest"
    and "timers (admit s) = timers s @ [StartTimer h (timesFailed (operations s ! h) * throttle s)]"
    and "promises (admit s) = promises s"
    and "calls (admit s) = calls s"
    and "completedOperations (admit s) = completedOperations s"
    and "maxConcurrentOperations (admit s) = maxConcurrentOperations s"
    and "maxFailuresPerOperation (admit s) = maxFailuresPerOperation s"
    and "cooldown (admit s) = cooldown s"
    and "numCurrentOperations (admit s) = numCurrentOperations s + 1"
    and "currentOperations (admit s) = AList.update (op_id (operations s ! h)) h (currentOperations s)"
    and "length (operations (admit s)) = length (operations s)"
    and "ids (admit s) = ids s"
    and "y \<noteq> h \<Longrightarrow> operations (admit s) ! y = operations s ! y"
    and "h < length (operations s) \<Longrightarrow>
         operations (admit s) ! h =
           (operations s ! h)\<lparr>once_started := Suc (once_started (operations s ! h)),
                              once_completed := Suc (once_completed (operations s ! h)),
                              once_failed := Suc (once_failed (operations s ! h))\<rparr>"
  using assms
  by (simp_all add: admit_def Let_def setTimeout_def op_upd_def the_op_def map_update_id ids_def)

lemma admit_tracked:
  assumes "admissible s r" "queuedOperations s \<noteq> []" "\<not> isFull s"
  shows "tracked (admit s) r"
proof -
  from assms(2) obtain h rest where q: "queuedOperations s = h # rest"
    by (cases "queuedOperations s") auto
  note f = admit_fields [OF q]
  from assms(1) q have h: "h < length (operations s)"
    by (simp add: admissible_def well_formed_def)
  have hid: "op_id (operations s ! h) = ids s ! h"
    using h by (simp add: ids_def)
  have wf: "well_formed (admit s)"
    using assms(1,3) q h unfolding admissible_def well_formed_def isFull_def
    by (auto simp: f hid update_conv' split: if_splits)
  show ?thesis
  proof (cases "r = h")
    case True
    have "active (admit s) r = Suc (active s r)"
      using True by (simp add: active_def f)
    with assms(1) q h True wf show ?thesis
      unfolding admissible_def tracked_def accounted_def
      by (auto simp: f update_conv' count_list_0_iff split: if_splits)
  next
    case False
    have "active (admit s) r = active s r"
      using False by (simp add: active_def f)
    moreover have "op_id (operations s ! h) \<noteq> op_id (operations s ! r)"
      using False h assms(1) unfolding admissible_def well_formed_def ids_def
      by (auto simp: distinct_conv_nth)
    ultimately show ?thesis
      using assms(1) q h False wf
      unfolding admissible_def tracked_def accounted_def
      by (auto simp: f update_conv' split: if_splits)
  qed
qed

lemma tracked_cong:
  assumes "operations t = operations s" "queuedOperations t = queuedOperations s"
    "timers t = timers s" "promises t = promises s" "calls t = calls s"
    "completedOperations t = completedOperations s" "currentOperations t = currentOperations s"
    "numCurrentOperations t = numCurrentOperations s"
    "maxConcurrentOperations t = maxConcurrentOperations s"
    "maxFailuresPerOperation t = maxFailuresPerOperation s" "cooldown t = cooldown s"
  shows "tracked t r = tracked s r"
  unfolding tracked_def well_formed_def accounted_def active_def ids_def assms ..

lemma admissible_cong:
  assumes "operations t = operations s" "queuedOperations t = queuedOperations s"
    "timers t = timers s" "promises t = promises s" "calls t = calls s"
    "completedOperations t = completedOperations s" "currentOperations t = currentOperations s"
    "numCurrentOperations t = numCurrentOperations s"
    "maxConcurrentOperations t = maxConcurrentOperations s"
    "maxFailuresPerOperation t = maxFailuresPerOperation s" "cooldown t = cooldown s"
  shows "admissible t r = admissible s r"
  unfolding admissible_def well_formed_def accounted_def active_def ids_def assms ..

lemma tracked_emit [simp]: "tracked (emit sig s) r = tracked s r"
  by (rule tracked_cong) (simp_all add: emit_def)

lemma admissible_emit [simp]: "admissible (emit sig s) r = admissible s r"
  by (rule admissible_cong) (simp_all add: emit_def)

lemma tracked_job_status [simp]: "tracked (s\<lparr>job_status := x\<rparr>) r = tracked s r"
  by (rule tracked_cong) simp_all

lemma tracked_op_emitted [simp]: "tracked (s\<lparr>op_emitted := x\<rparr>) r = tracked s r"
  by (rule tracked_cong) simp_all

lemma tracked_cooldown_timer [simp]: "tracked (setTimeout (CooldownTimer d) s) r = tracked s r"
  by (simp add: tracked_def accounted_def well_formed_def active_def setTimeout_def ids_def)

lemma startNextOperation_tracked:
  "tracked s r \<Longrightarrow> tracked (startNextOperation c s) r"
proof (induction c s rule: startNextOperation.induct)
  case (1 cooled s)
  show ?case
  proof (cases "\<not> (cooldown s \<noteq> 0 \<and> \<not> cooled) \<and> \<not> isFull s \<and> \<not> isComplete s \<and> hasPending s")
    case True
    then have "tracked (admit s) r"
      using "1.prems" by (intro admit_tracked tracked_admissible) (simp_all add: hasPending_def)
    with True 1 show ?thesis
      by (simp add: startNextOperation_admits)
  next
    case False
    with "1.prems" show ?thesis
      by (auto simp: startNextOperation.simps [of cooled s])
  qed
qed

lemma startNextOperation_after_bookkeeping:
  assumes "admissible s r" "\<not> isFull s"
  shows "tracked (startNextOperation False s) r"
proof (cases "queuedOperations s = [] \<or> cooldown s \<noteq> 0")
  case True
  with assms(1) have "tracked s r" by (rule admissible_tracked)
  then show ?thesis by (rule startNextOperation_tracked)
next
  case False
  then have "startNextOperation False s = startNextOperation False (admit s)"
    using assms(2) by (intro startNextOperation_admits) (simp add: isComplete_def hasPending_def)
  moreover have "tracked (admit s) r"
    using assms False by (intro admit_tracked) simp_all
  ultimately show ?thesis
    by (simp add: startNextOperation_tracked)
qed

lemma queued_startNextOperation_Nil:
  "queuedOperations s = [] \<Longrightarrow> queuedOperations (startNextOperation c s) = []"
  by (simp add: startNextOperation.simps [of c s] hasPending_def setTimeout_def emit_def)

lemma operations_startNextOperation_other:
  "r \<notin> set (queuedOperations s) \<Longrightarrow> operations (startNextOperation c s) ! r = operations s ! r"
proof (induction c s rule: startNextOperation.induct)
  case (1 cooled s)
  show ?case
  proof (cases "\<not> (cooldown s \<noteq> 0 \<and> \<not> cooled) \<and> \<not> isFull s \<and> \<not> isComplete s \<and> hasPending s")
    case True
    then obtain h rest where q: "queuedOperations s = h # rest"
      by (cases "queuedOperations s") (auto simp: hasPending_def)
    with "1.prems" have "r \<noteq> h" "r \<notin> set (queuedOperations (admit s))"
      by (simp_all add: admit_fields [OF q])
    with True 1 q show ?thesis
      by (simp add: startNextOperation_admits admit_fields [OF q])
  next
    case False
    then show ?thesis
      by (auto simp: startNextOperation.simps [of cooled s] setTimeout_def emit_def)
  qed
qed

lemma readmitted_last_drains:
  "queuedOperations s = qp @ [r] \<Longrightarrow> r \<notin> set qp \<Longrightarrow> once_failed (operations s ! r) = 0 \<Longrightarrow>
   once_failed (operations (startNextOperation False s) ! r) \<noteq> 0 \<Longrightarrow>
   cooldown s = 0 \<and> queuedOperations (startNextOperation False s) = []"
proof (induction "False" s arbitrary: qp rule: startNextOperation.induct)
  case (1 s)
  show ?case
  proof (cases "\<not> (cooldown s \<noteq> 0) \<and> \<not> isFull s \<and> \<not> isComplete s \<and> hasPending s")
    case True
    then have e: "startNextOperation False s = startNextOperation False (admit s)"
      by (intro startNextOperation_admits) simp
    have c: "cooldown (admit s) = cooldown s"
      by (cases "queuedOperations s") (simp_all add: admit_Nil admit_fields)
    show ?thesis
    proof (cases qp)
      case Nil
      with "1.prems" have "queuedOperations (admit s) = []"
        by (simp add: admit_fields)
      with True e show ?thesis
        by (simp add: queued_startNextOperation_Nil)
    next
      case (Cons h qp')
      with "1.prems" have q: "queuedOperations s = h # (qp' @ [r])" and "r \<noteq> h" "r \<notin> set qp'"
        by auto
      then have "queuedOperations (admit s) = qp' @ [r]"
        "once_failed (operations (admit s) ! r) = 0"
        using "1.prems"(3) by (simp_all add: admit_fields [OF q])
      with "1.hyps" [of qp'] True \<open>r \<notin> set qp'\<close> "1.prems"(4) e c show ?thesis
        by simp
    qed
  next
    case False
    with "1.prems" show ?thesis
      by (auto simp: startNextOperation.simps [of False s] setTimeout_def emit_def split: if_splits)
  qed
qed

lemma active_updates [simp]:
  "active (s\<lparr>queuedOperations := q\<rparr>) r = active s r"
  "active (s\<lparr>completedOperations := c\<rparr>) r = active s r"
  "active (s\<lparr>currentOperations := m\<rparr>) r = active s r"
  "active (s\<lparr>numCurrentOperations := n\<rparr>) r = active s r"
  "active (s\<lparr>calls := cs\<rparr>) r = active s r"
  "active (s\<lparr>operations := os\<rparr>) r = active s r"
  "active (s\<lparr>op_emitted := oe\<rparr>) r = active s r"
  by (simp_all add: active_def)

lemma op_upd_fields:
  "queuedOperations (op_upd x g s) = queuedOperations s"
  "timers (op_upd x g s) = timers s"
  "promises (op_upd x g s) = promises s"
  "calls (op_upd x g s) = calls s"
  "completedOperations (op_upd x g s) = completedOperations s"
  "currentOperations (op_upd x g s) = currentOperations s"
  "numCurrentOperations (op_upd x g s) = numCurrentOperations s"
  "maxConcurrentOperations (op_upd x g s) = maxConcurrentOperations s"
  "maxFailuresPerOperation (op_upd x g s) = maxFailuresPerOperation s"
  "cooldown (op_upd x g s) = cooldown s"
  "length (operations (op_upd x g s)) = length (operations s)"
  "y \<noteq> x \<Longrightarrow> operations (op_upd x g s) ! y = operations s ! y"
  "x < length (operations s) \<Longrightarrow> operations (op_upd x g s) ! x = g (operations s ! x)"
  by (simp_all add: op_upd_def)

lemma op_upd_ids:
  "(\<And>p. op_id (g p) = op_id p) \<Longrightarrow> ids (op_upd x g s) = ids s"
  by (simp add: op_upd_def map_update_id ids_def)

lemma ids_updates [simp]:
  "ids (s\<lparr>queuedOperations := q\<rparr>) = ids s"
  "ids (s\<lparr>completedOperations := c\<rparr>) = ids s"
  "ids (s\<lparr>currentOperations := m\<rparr>) = ids s"
  "ids (s\<lparr>numCurrentOperations := n\<rparr>) = ids s"
  "ids (s\<lparr>calls := cs\<rparr>) = ids s"
  "ids (s\<lparr>promises := ps\<rparr>) = ids s"
  "ids (s\<lparr>timers := ts\<rparr>) = ids s"
  "ids (s\<lparr>op_emitted := oe\<rparr>) = ids s"
  by (simp_all add: ids_def)

lemma op_upd_id_nth:
  "(\<And>p. op_id (g p) = op_id p) \<Longrightarrow> op_id (operations (op_upd x g s) ! y) = op_id (operations s ! y)"
  by (cases "y = x"; cases "x < length (operations s)") (simp_all add: op_upd_def list_update_beyond)

lemma active_op_upd [simp]: "active (op_upd x g s) r = active s r"
  by (simp add: active_def op_upd_fields)

lemma well_formed_op_upd:
  "(\<And>p. op_id (g p) = op_id p) \<Longrightarrow> well_formed (op_upd x g s) = well_formed s"
  by (simp add: well_formed_def op_upd_fields op_upd_ids)

lemma accounted_op_upd:
  assumes "\<And>p. op_id (g p) = op_id p"
    and "x = r \<Longrightarrow> once_failed (g (operations s ! r)) = once_failed (operations s ! r) \<and>
           timesFailed (g (operations s ! r)) = timesFailed (operations s ! r) \<and>
           op_status (g (operations s ! r)) = op_status (operations s ! r)"
  shows "accounted (op_upd x g s) r = accounted s r"
proof (cases "x = r \<and> x < length (operations s)")
  case True
  with assms show ?thesis
    by (simp add: accounted_def op_upd_fields)
next
  case False
  then have "operations (op_upd x g s) ! r = operations s ! r"
    by (cases "x < length (operations s)") (auto simp: op_upd_def list_update_beyond)
  then show ?thesis
    by (simp add: accounted_def op_upd_fields)
qed

lemma tracked_op_upd:
  assumes "\<And>p. op_id (g p) = op_id p"
    and "x = r \<Longrightarrow> once_failed (g (operations s ! r)) = once_failed (operations s ! r) \<and>
           timesFailed (g (operations s ! r)) = timesFailed (operations s ! r) \<and>
           op_status (g (operations s ! r)) = op_status (operations s ! r)"
  shows "tracked (op_upd x g s) r = tracked s r"
  using assms
  by (simp add: tracked_def well_formed_op_upd accounted_op_upd op_upd_fields)

lemma handleOperationComplete_unfold:
  "handleOperationComplete i final s =
     startNextOperation False
       (s\<lparr>completedOperations :=
             (if final then completedOperations s @ [map_of (currentOperations s) i]
              else completedOperations s),
           currentOperations := AList.delete i (currentOperations s),
           numCurrentOperations := numCurrentOperations s - 1\<rparr>)"
  by (simp add: handleOperationComplete_def Let_def)

lemma well_formed_bookkeeping:
  "well_formed s \<Longrightarrow>
   well_formed (s\<lparr>completedOperations := c,
                  currentOperations := AList.delete i (currentOperations s),
                  numCurrentOperations := numCurrentOperations s - 1\<rparr>)"
  by (simp add: well_formed_def delete_conv')

lemma well_formed_requeue:
  "well_formed s \<Longrightarrow> x < length (operations s) \<Longrightarrow>
   well_formed (s\<lparr>queuedOperations := queuedOperations s @ [x]\<rparr>)"
  by (simp add: well_formed_def)

lemma not_full_bookkeeping:
  "well_formed s \<Longrightarrow>
   \<not> isFull (s\<lparr>queuedOperations := q, completedOperations := c, currentOperations := m,
                numCurrentOperations := numCurrentOperations s - 1\<rparr>)"
  by (simp add: well_formed_def isFull_def)

lemma distinct_ids:
  assumes "well_formed s" "r < length (operations s)" "x < length (operations s)"
    "op_id (operations s ! x) = op_id (operations s ! r)"
  shows "x = r"
proof -
  from assms(1) have "distinct (map op_id (operations s))"
    by (simp add: well_formed_def ids_def)
  then have "\<forall>i<length (operations s). \<forall>j<length (operations s).
      i \<noteq> j \<longrightarrow> op_id (operations s ! i) \<noteq> op_id (operations s ! j)"
    by (simp add: distinct_conv_nth)
  with assms(2-4) show ?thesis by blast
qed

lemma current_key:
  assumes "well_formed s" "r < length (operations s)" "x < length (operations s)"
    "map_of (currentOperations s) (op_id (operations s ! x)) = Some r"
  shows "x = r"
proof -
  from assms(1) have "\<forall>k y. map_of (currentOperations s) k = Some y \<longrightarrow>
        y < length (operations s) \<and> ids s ! y = k"
    by (simp add: well_formed_def)
  with assms(4) have "ids s ! r = op_id (operations s ! x)"
    by blast
  with assms(2) have "op_id (operations s ! r) = op_id (operations s ! x)"
    by (simp add: ids_def)
  with assms(1-3) show ?thesis
    by (intro distinct_ids [of s r x]) simp_all
qed

lemma accounted_cong:
  assumes "operations t ! r = operations s ! r"
    "queuedOperations t = queuedOperations s"
    "active t r = active s r"
    "count_list (promises t) r = count_list (promises s) r"
    "count_list (calls t) r = count_list (calls s) r"
    "maxFailuresPerOperation t = maxFailuresPerOperation s"
    "map_of (currentOperations t) (op_id (operations s ! r)) =
       map_of (currentOperations s) (op_id (operations s ! r))"
    "(Some r \<in> set (completedOperations t)) = (Some r \<in> set (completedOperations s))"
  shows "accounted t r = accounted s r"
  unfolding accounted_def assms ..

lemma accounted_bookkeeping_other:
  assumes "accounted s r" "i \<noteq> op_id (operations s ! r)" "map_of (currentOperations s) i \<noteq> Some r"
  shows "accounted (s\<lparr>completedOperations :=
             (if final then completedOperations s @ [map_of (currentOperations s) i]
              else completedOperations s),
           currentOperations := AList.delete i (currentOperations s),
           numCurrentOperations := numCurrentOperations s - 1\<rparr>) r"
proof -
  let ?u = "s\<lparr>completedOperations :=
             (if final then completedOperations s @ [map_of (currentOperations s) i]
              else completedOperations s),
           currentOperations := AList.delete i (currentOperations s),
           numCurrentOperations := numCurrentOperations s - 1\<rparr>"
  have "(Some r \<in> set (completedOperations ?u)) = (Some r \<in> set (completedOperations s))"
    using assms(3) by auto
  moreover have "map_of (currentOperations ?u) (op_id (operations s ! r)) =
       map_of (currentOperations s) (op_id (operations s ! r))"
    using assms(2) by (simp add: delete_conv')
  ultimately have "accounted ?u r = accounted s r"
    by (intro accounted_cong) simp_all
  with assms(1) show ?thesis by simp
qed

lemma other_keys:
  assumes "tracked s r" "x < length (operations s)" "x \<noteq> r"
  shows "op_id (operations s ! x) \<noteq> op_id (operations s ! r)"
    and "map_of (currentOperations s) (op_id (operations s ! x)) \<noteq> Some r"
proof -
  from assms(1) have w: "well_formed s" and n: "r < length (operations s)"
    by (simp_all add: tracked_def)
  show "op_id (operations s ! x) \<noteq> op_id (operations s ! r)"
    using distinct_ids [OF w n assms(2)] assms(3) by blast
  show "map_of (currentOperations s) (op_id (operations s ! x)) \<noteq> Some r"
    using current_key [OF w n assms(2)] assms(3) by blast
qed

lemma tracked_bookkeeping_other:
  assumes "tracked s r" "x < length (operations s)" "x \<noteq> r"
  shows "tracked (s\<lparr>completedOperations :=
             (if final then completedOperations s @ [map_of (currentOperations s) (op_id (operations s ! x))]
              else completedOperations s),
           currentOperations := AList.delete (op_id (operations s ! x)) (currentOperations s),
           numCurrentOperations := numCurrentOperations s - 1\<rparr>) r"
proof -
  note k = other_keys [OF assms]
  from assms(1) have "accounted s r" "well_formed s"
    by (simp_all add: tracked_def)
  from accounted_bookkeeping_other [OF this(1) k] well_formed_bookkeeping [OF this(2)] assms(1)
  show ?thesis
    by (simp add: tracked_def)
qed

lemma handleOperationComplete_other:
  assumes "tracked s r" "x < length (operations s)" "x \<noteq> r"
  shows "tracked (handleOperationComplete (op_id (operations s ! x)) final s) r"
  unfolding handleOperationComplete_unfold
proof (rule startNextOperation_after_bookkeeping)
  show "admissible (s\<lparr>completedOperations :=
             (if final then completedOperations s @ [map_of (currentOperations s) (op_id (operations s ! x))]
              else completedOperations s),
           currentOperations := AList.delete (op_id (operations s ! x)) (currentOperations s),
           numCurrentOperations := numCurrentOperations s - 1\<rparr>) r"
    using assms by (intro tracked_admissible tracked_bookkeeping_other)
  from assms(1) show "\<not> isFull (s\<lparr>completedOperations :=
             (if final then completedOperations s @ [map_of (currentOperations s) (op_id (operations s ! x))]
              else completedOperations s),
           currentOperations := AList.delete (op_id (operations s ! x)) (currentOperations s),
           numCurrentOperations := numCurrentOperations s - 1\<rparr>)"
    by (simp add: isFull_def tracked_def well_formed_def)
qed

lemma admissible_requeue_other:
  assumes "tracked s r" "x \<noteq> r" "x < length (operations s)"
  shows "admissible (s\<lparr>queuedOperations := queuedOperations s @ [x]\<rparr>) r"
proof -
  let ?t = "s\<lparr>queuedOperations := queuedOperations s @ [x]\<rparr>"
  have a: "active ?t r = active s r"
    by (simp add: active_def)
  from assms have w: "well_formed ?t"
    by (simp add: tracked_def well_formed_requeue)
  from assms have c: "accounted ?t r"
    unfolding tracked_def accounted_def by auto
  have t: "tl (queuedOperations s @ [x]) = (if queuedOperations s = [] then [] else tl (queuedOperations s) @ [x])"
    by (cases "queuedOperations s") simp_all
  have h: "queuedOperations s \<noteq> [] \<Longrightarrow> hd (queuedOperations s @ [x]) = hd (queuedOperations s)"
    by (cases "queuedOperations s") simp_all
  from assms(1) have q: "r \<in> set (queuedOperations s) \<Longrightarrow> active s r = 0"
    and g: "2 \<le> active s r \<Longrightarrow> cooldown s = 0 \<and> queuedOperations s = []"
    and n: "r < length (operations s)"
    by (simp_all add: tracked_def)
  have 1: "r \<in> set (tl (queuedOperations ?t)) \<longrightarrow> active ?t r = 0"
    using q assms(2) by (auto simp: t a dest: list.set_sel(2))
  have 2: "2 \<le> active ?t r + (if queuedOperations ?t \<noteq> [] \<and> hd (queuedOperations ?t) = r then 1 else 0) \<longrightarrow>
        cooldown ?t = 0 \<and> tl (queuedOperations ?t) = []"
  proof (cases "queuedOperations s = []")
    case True
    with g assms(2) show ?thesis by (auto simp: a)
  next
    case False
    then have "hd (queuedOperations s) \<in> set (queuedOperations s)" by simp
    with False q g show ?thesis
      by (auto simp: a h)
  qed
  from w c n 1 2 show ?thesis
    unfolding admissible_def by simp
qed

lemma requeue_other_tracked:
  assumes "tracked s r" "x \<noteq> r" "x < length (operations s)"
  shows "tracked (handleOperationComplete (op_id (operations s ! x)) False
           (s\<lparr>queuedOperations := queuedOperations s @ [x]\<rparr>)) r"
  unfolding handleOperationComplete_unfold
proof (rule startNextOperation_after_bookkeeping)
  let ?t = "s\<lparr>queuedOperations := queuedOperations s @ [x]\<rparr>"
  let ?i = "op_id (operations s ! x)"
  let ?u = "?t\<lparr>completedOperations :=
             (if False then completedOperations ?t @ [map_of (currentOperations ?t) ?i]
              else completedOperations ?t),
           currentOperations := AList.delete ?i (currentOperations ?t),
           numCurrentOperations := numCurrentOperations ?t - 1\<rparr>"
  have t: "admissible ?t r"
    using assms by (rule admissible_requeue_other)
  have a: "active ?u r = active ?t r"
    by (simp add: active_def)
  from other_keys [OF assms(1,3,2)]
  have 1: "?i \<noteq> op_id (operations ?t ! r)"
    and 2: "map_of (currentOperations ?t) ?i \<noteq> Some r"
    by simp_all
  from t have "accounted ?t r" "well_formed ?t"
    by (simp_all add: admissible_def)
  then have "well_formed ?u"
    by (simp add: well_formed_def delete_conv')
  with accounted_bookkeeping_other [OF \<open>accounted ?t r\<close> 1 2, of False] t
  show "admissible ?u r"
    by (simp add: admissible_def)
  from assms(1) show "\<not> isFull ?u"
    by (simp add: isFull_def tracked_def well_formed_def)
qed

lemma invoke_once_preserves:
  "(\<And>s. P s \<Longrightarrow> P (listener (remove s))) \<Longrightarrow> P s \<Longrightarrow> P (invoke_once n remove listener s)"
  by (induction n arbitrary: s) simp_all

lemma length_operations_admit: "length (operations (admit s)) = length (operations s)"
  by (cases "queuedOperations s") (simp_all add: admit_Nil admit_fields)

lemma length_operations_startNextOperation:
  "length (operations (startNextOperation c s)) = length (operations s)"
proof (induction c s rule: startNextOperation.induct)
  case (1 cooled s)
  show ?case
  proof (cases "\<not> (cooldown s \<noteq> 0 \<and> \<not> cooled) \<and> \<not> isFull s \<and> \<not> isComplete s \<and> hasPending s")
    case True
    with 1 show ?thesis
      by (simp add: startNextOperation_admits length_operations_admit)
  next
    case False
    then show ?thesis
      by (auto simp: startNextOperation.simps [of cooled s] setTimeout_def emit_def)
  qed
qed

lemma length_operations_handleOperationComplete:
  "length (operations (handleOperationComplete i final s)) = length (operations s)"
  by (simp add: handleOperationComplete_unfold length_operations_startNextOperation)

lemma operations_emit [simp]: "operations (emit sig s) = operations s"
  by (simp add: emit_def)

lemma tracked_onStarted [simp]: "tracked (onStarted x s) r = tracked s r"
  by (simp add: onStarted_def emitOperation_def)

lemma onCompleted_other:
  assumes "tracked s r" "x < length (operations s)" "x \<noteq> r"
  shows "tracked (onCompleted x s) r \<and> length (operations (onCompleted x s)) = length (operations s)"
proof -
  let ?t = "emit (OPERATION_COMPLETED (op_id (operations s ! x))) s"
  have "tracked (handleOperationComplete (op_id (operations ?t ! x)) True ?t) r"
    using assms by (intro handleOperationComplete_other) simp_all
  then show ?thesis
    by (simp add: onCompleted_def Let_def emitOperation_def the_op_def
        length_operations_handleOperationComplete)
qed

lemma queued_emit [simp]: "queuedOperations (emit sig s) = queuedOperations s"
  by (simp add: emit_def)

lemma onFailed_other:
  assumes "tracked s r" "x < length (operations s)" "x \<noteq> r"
  shows "tracked (onFailed x s) r \<and> length (operations (onFailed x s)) = length (operations s)"
proof -
  let ?t = "emit (OPERATION_FAILED (op_id (operations s ! x))) s"
  have t: "tracked ?t r" "x < length (operations ?t)"
    using assms by simp_all
  have 1: "tracked (handleOperationComplete (op_id (operations ?t ! x)) True ?t) r"
    using t assms(3) by (rule handleOperationComplete_other)
  have 2: "tracked (handleOperationComplete (op_id (operations ?t ! x)) False
           (?t\<lparr>queuedOperations := queuedOperations ?t @ [x]\<rparr>)) r"
    using t(1) assms(3) t(2) by (rule requeue_other_tracked)
  from 1 2 show ?thesis
    by (simp add: onFailed_def Let_def emitOperation_def the_op_def
        length_operations_handleOperationComplete)
qed

lemma emit_completed_other:
  assumes "tracked s r" "x < length (operations s)" "x \<noteq> r"
  shows "tracked (emit_completed x s) r"
proof -
  let ?P = "\<lambda>s. tracked s r \<and> x < length (operations s)"
  have "?P (emit_completed x s)"
    unfolding emit_completed_def
  proof (rule invoke_once_preserves [where P = ?P])
    fix t assume "?P t"
    then have "tracked (op_upd x (\<lambda>p. p\<lparr>once_completed := once_completed p - 1\<rparr>) t) r"
      "x < length (operations (op_upd x (\<lambda>p. p\<lparr>once_completed := once_completed p - 1\<rparr>) t))"
      by (simp_all add: tracked_op_upd op_upd_fields)
    from onCompleted_other [OF this assms(3)] \<open>?P t\<close>
    show "?P (onCompleted x (op_upd x (\<lambda>p. p\<lparr>once_completed := once_completed p - 1\<rparr>) t))"
      by (simp add: op_upd_fields)
  next
    from assms show "?P (s\<lparr>op_emitted := op_emitted s @ [(x, OPERATION_COMPLETED (op_id (the_op s x)))]\<rparr>)"
      by simp
  qed
  then show ?thesis by simp
qed

lemma emit_failed_other:
  assumes "tracked s r" "x < length (operations s)" "x \<noteq> r"
  shows "tracked (emit_failed x s) r \<and> length (operations (emit_failed x s)) = length (operations s)"
proof -
  let ?P = "\<lambda>t. tracked t r \<and> length (operations t) = length (operations s)"
  have "?P (emit_failed x s)"
    unfolding emit_failed_def
  proof (rule invoke_once_preserves [where P = ?P])
    fix t assume "?P t"
    then have u: "tracked (op_upd x (\<lambda>p. p\<lparr>once_failed := once_failed p - 1\<rparr>) t) r"
      "x < length (operations (op_upd x (\<lambda>p. p\<lparr>once_failed := once_failed p - 1\<rparr>) t))"
      and l: "length (operations (op_upd x (\<lambda>p. p\<lparr>once_failed := once_failed p - 1\<rparr>) t)) = length (operations s)"
      using assms(2,3) by (simp_all add: tracked_op_upd op_upd_fields)
    from onFailed_other [OF u assms(3)] l
    show "?P (onFailed x (op_upd x (\<lambda>p. p\<lparr>once_failed := once_failed p - 1\<rparr>) t))"
      by simp
  next
    from assms show "?P (s\<lparr>op_emitted := op_emitted s @ [(x, OPERATION_FAILED (op_id (the_op s x)))]\<rparr>)"
      by simp
  qed
  then show ?thesis by simp
qed

lemma tracked_emit_started [simp]: "tracked (emit_started x s) r = tracked s r"
proof -
  have "\<And>t. tracked (onStarted x (op_upd x (\<lambda>p. p\<lparr>once_started := once_started p - 1\<rparr>) t)) r = tracked t r"
    by (simp add: tracked_op_upd)
  then have "tracked (emit_started x s) r =
     tracked (s\<lparr>op_emitted := op_emitted s @ [(x, OPERATION_STARTED (op_id (the_op s x)))]\<rparr>) r"
    unfolding emit_started_def by (rule invoke_once_frame)
  then show ?thesis
    by simp
qed

lemma startNextOperation_frame:
  assumes "\<And>s. f (admit s) = f s" "\<And>s sig. f (emit sig s) = f s"
    "\<And>s t. f (setTimeout t s) = f s" "\<And>s x. f (s\<lparr>job_status := x\<rparr>) = f s"
  shows "f (startNextOperation c s) = f s"
proof (induction c s rule: startNextOperation.induct)
  case (1 cooled s)
  show ?case
  proof (cases "\<not> (cooldown s \<noteq> 0 \<and> \<not> cooled) \<and> \<not> isFull s \<and> \<not> isComplete s \<and> hasPending s")
    case True
    with 1 show ?thesis
      by (simp add: startNextOperation_admits assms)
  next
    case False
    then show ?thesis
      by (auto simp: startNextOperation.simps [of cooled s] assms)
  qed
qed

lemma cooldown_admit: "cooldown (admit s) = cooldown s"
  by (cases "queuedOperations s") (simp_all add: admit_Nil admit_fields)

lemma cooldown_startNextOperation: "cooldown (startNextOperation c s) = cooldown s"
  by (rule startNextOperation_frame) (simp_all add: cooldown_admit emit_def setTimeout_def)

text \<open>A timer fires.\<close>

lemma filter_remove_nth:
  assumes "n < length ts"
  shows "length (filter P ts) =
         length (filter P (take n ts @ drop (Suc n) ts)) + (if P (ts ! n) then 1 else 0)"
proof -
  from assms have "ts = take n ts @ ts ! n # drop (Suc n) ts"
    by (rule id_take_nth_drop)
  then have "filter P ts = filter P (take n ts @ ts ! n # drop (Suc n) ts)"
    by simp
  then show ?thesis
    by (simp del: append_take_drop_id)
qed

lemma set_remove_nth: "set (take n ts @ drop (Suc n) ts) \<subseteq> set ts"
  using set_take_subset [of n ts] set_drop_subset [of "Suc n" ts] by auto

lemma well_formed_fewer_timers:
  "well_formed s \<Longrightarrow> set ts \<subseteq> set (timers s) \<Longrightarrow> well_formed (s\<lparr>timers := ts\<rparr>)"
  unfolding well_formed_def by simp blast

lemma accounted_fewer_active:
  assumes "accounted s r" "active t r \<le> active s r"
    "operations t = operations s" "queuedOperations t = queuedOperations s"
    "promises t = promises s" "calls t = calls s"
    "completedOperations t = completedOperations s" "currentOperations t = currentOperations s"
    "maxFailuresPerOperation t = maxFailuresPerOperation s"
  shows "accounted t r"
  using assms(1,2) unfolding accounted_def assms(3-) by auto

lemma tracked_fewer_timers:
  assumes "tracked s r" "set ts \<subseteq> set (timers s)"
    "length (filter (starts r) ts) \<le> length (filter (starts r) (timers s))"
  shows "tracked (s\<lparr>timers := ts\<rparr>) r"
proof -
  have a: "active (s\<lparr>timers := ts\<rparr>) r \<le> active s r"
    using assms(3) by (simp add: active_def)
  from assms(1) have "accounted s r" by (simp add: tracked_def)
  then have "accounted (s\<lparr>timers := ts\<rparr>) r"
    using a by (rule accounted_fewer_active) simp_all
  moreover from assms(1,2) have "well_formed (s\<lparr>timers := ts\<rparr>)"
    by (simp add: tracked_def well_formed_fewer_timers)
  ultimately show ?thesis
    using assms(1) a unfolding tracked_def by auto
qed

lemma cooldown_timer_tracked:
  assumes "tracked s r" "n < length (timers s)" "timers s ! n = CooldownTimer d"
  shows "tracked (startNextOperation True (s\<lparr>timers := take n (timers s) @ drop (Suc n) (timers s)\<rparr>)) r"
proof (rule startNextOperation_tracked)
  from filter_remove_nth [OF assms(2), of "starts r"]
  have "length (filter (starts r) (take n (timers s) @ drop (Suc n) (timers s)))
      \<le> length (filter (starts r) (timers s))"
    by simp
  with assms(1) set_remove_nth
  show "tracked (s\<lparr>timers := take n (timers s) @ drop (Suc n) (timers s)\<rparr>) r"
    by (rule tracked_fewer_timers)
qed

lemma promises_emit_started: "promises (emit_started r s) = promises s"
  unfolding emit_started_def
  by (subst invoke_once_frame) (simp_all add: onStarted_def emitOperation_def emit_def op_upd_def)

lemma op_upd_calls_promises:
  "(op_upd x g s)\<lparr>calls := c, promises := p\<rparr> = op_upd x g (s\<lparr>calls := c, promises := p\<rparr>)"
  by (simp add: op_upd_def)

lemma tracked_after_emit_started:
  "tracked ((emit_started x s)\<lparr>calls := c, promises := p\<rparr>) r = tracked (s\<lparr>calls := c, promises := p\<rparr>) r"
proof -
  have 1: "\<And>t. tracked ((onStarted x (op_upd x (\<lambda>p. p\<lparr>once_started := once_started p - 1\<rparr>) t))
              \<lparr>calls := c, promises := p\<rparr>) r = tracked (t\<lparr>calls := c, promises := p\<rparr>) r"
  proof -
    fix t
    have "tracked ((onStarted x (op_upd x (\<lambda>p. p\<lparr>once_started := once_started p - 1\<rparr>) t))
              \<lparr>calls := c, promises := p\<rparr>) r
        = tracked ((op_upd x (\<lambda>p. p\<lparr>once_started := once_started p - 1\<rparr>) t)\<lparr>calls := c, promises := p\<rparr>) r"
      by (rule tracked_cong) (simp_all add: onStarted_def emitOperation_def emit_def)
    also have "\<dots> = tracked (t\<lparr>calls := c, promises := p\<rparr>) r"
      by (simp add: op_upd_calls_promises tracked_op_upd)
    finally show "tracked ((onStarted x (op_upd x (\<lambda>p. p\<lparr>once_started := once_started p - 1\<rparr>) t))
              \<lparr>calls := c, promises := p\<rparr>) r = tracked (t\<lparr>calls := c, promises := p\<rparr>) r" .
  qed
  have "tracked ((emit_started x s)\<lparr>calls := c, promises := p\<rparr>) r
      = tracked ((s\<lparr>op_emitted := op_emitted s @ [(x, OPERATION_STARTED (op_id (the_op s x)))]\<rparr>)
           \<lparr>calls := c, promises := p\<rparr>) r"
    unfolding emit_started_def
    by (rule invoke_once_frame [where f = "\<lambda>t. tracked (t\<lparr>calls := c, promises := p\<rparr>) r"]) (rule 1)
  also have "\<dots> = tracked (s\<lparr>calls := c, promises := p\<rparr>) r"
    by (rule tracked_cong) simp_all
  finally show ?thesis .
qed

lemma started_other_tracked:
  assumes "tracked s r" "set ts \<subseteq> set (timers s)"
    "length (filter (starts r) ts) \<le> length (filter (starts r) (timers s))"
    "x < length (operations s)" "x \<noteq> r"
  shows "tracked (s\<lparr>timers := ts, calls := calls s @ [x], promises := promises s @ [x]\<rparr>) r"
proof -
  let ?t = "s\<lparr>timers := ts\<rparr>"
  let ?v = "s\<lparr>timers := ts, calls := calls s @ [x], promises := promises s @ [x]\<rparr>"
  have t: "tracked ?t r"
    using assms(1-3) by (rule tracked_fewer_timers)
  have a: "active ?v r = active ?t r"
    using assms(5) by (simp add: active_def)
  from t have "well_formed ?v"
    using assms(4) by (simp add: tracked_def well_formed_def)
  moreover from t have "accounted ?v r"
    using assms(5) unfolding tracked_def accounted_def a by auto
  ultimately show ?thesis
    using t unfolding tracked_def a by simp
qed

lemma started_own_tracked:
  assumes "tracked s r" "set ts \<subseteq> set (timers s)"
    "length (filter (starts r) (timers s)) = Suc (length (filter (starts r) ts))"
    "op_status (operations s ! r) \<noteq> STARTED"
  shows "tracked (op_upd r (\<lambda>p. p\<lparr>op_status := STARTED\<rparr>)
           (s\<lparr>timers := ts, calls := calls s @ [r], promises := promises s @ [r]\<rparr>)) r"
proof -
  let ?v = "op_upd r (\<lambda>p. p\<lparr>op_status := STARTED\<rparr>)
           (s\<lparr>timers := ts, calls := calls s @ [r], promises := promises s @ [r]\<rparr>)"
  from assms(1) have n: "r < length (operations s)" and w: "well_formed s" and c: "accounted s r"
    by (simp_all add: tracked_def)
  have o: "operations ?v ! r = (operations s ! r)\<lparr>op_status := STARTED\<rparr>"
    using n by (simp add: op_upd_def)
  from c assms(4) have p: "count_list (promises s) r = 0"
    by (simp add: accounted_def)
  have a: "active ?v r = active s r"
    using assms(3) p by (simp add: active_def op_upd_def)
  have f: "queuedOperations ?v = queuedOperations s" "calls ?v = calls s @ [r]"
    "promises ?v = promises s @ [r]" "completedOperations ?v = completedOperations s"
    "currentOperations ?v = currentOperations s"
    "maxFailuresPerOperation ?v = maxFailuresPerOperation s"
    "cooldown ?v = cooldown s" "length (operations ?v) = length (operations s)"
    by (simp_all add: op_upd_def)
  have "well_formed (s\<lparr>timers := ts, calls := calls s @ [r], promises := promises s @ [r]\<rparr>)"
    using w n assms(2) unfolding well_formed_def by simp blast
  then have "well_formed ?v"
    by (simp add: well_formed_op_upd)
  moreover have "accounted ?v r"
    using c p assms(4) unfolding accounted_def a o f by auto
  ultimately show ?thesis
    using assms(1) n unfolding tracked_def a f by simp
qed

lemma start_timer_tracked:
  assumes "tracked s r" "n < length (timers s)" "timers s ! n = StartTimer x d"
  shows "tracked (operation_start x (s\<lparr>timers := take n (timers s) @ drop (Suc n) (timers s)\<rparr>)) r"
proof -
  let ?ts = "take n (timers s) @ drop (Suc n) (timers s)"
  let ?s1 = "s\<lparr>timers := ?ts\<rparr>"
  note l = filter_remove_nth [OF assms(2), of "starts r"]
  have sub: "set ?ts \<subseteq> set (timers s)" by (rule set_remove_nth)
  from assms have x: "x < length (operations s)"
    by (metis nth_mem tracked_def well_formed_def)
  show ?thesis
  proof (cases "op_status (operations s ! x) = STARTED")
    case True
    then have "operation_start x ?s1 = ?s1"
      by (simp add: operation_start_def the_op_def)
    moreover have "tracked ?s1 r"
      using assms(1) sub l by (intro tracked_fewer_timers) simp_all
    ultimately show ?thesis by simp
  next
    case False
    let ?s2 = "op_upd x (\<lambda>p. p\<lparr>op_status := STARTED\<rparr>) ?s1"
    have "operation_start x ?s1 =
       (emit_started x ?s2)\<lparr>calls := calls ?s2 @ [x], promises := promises ?s2 @ [x]\<rparr>"
      using False by (simp add: operation_start_def the_op_def Let_def calls_emit_started
          promises_emit_started)
    then have "tracked (operation_start x ?s1) r
      = tracked (?s2\<lparr>calls := calls ?s2 @ [x], promises := promises ?s2 @ [x]\<rparr>) r"
      by (simp add: tracked_after_emit_started)
    also have "?s2\<lparr>calls := calls ?s2 @ [x], promises := promises ?s2 @ [x]\<rparr>
      = op_upd x (\<lambda>p. p\<lparr>op_status := STARTED\<rparr>)
          (s\<lparr>timers := ?ts, calls := calls s @ [x], promises := promises s @ [x]\<rparr>)"
      by (simp add: op_upd_def)
    also have "tracked \<dots> r"
    proof (cases "x = r")
      case True
      with assms(3) l have "length (filter (starts r) (timers s)) = Suc (length (filter (starts r) ?ts))"
        by simp
      with assms(1) sub False True show ?thesis
        by (simp add: started_own_tracked)
    next
      case neq: False
      with assms(3) l have "length (filter (starts r) ?ts) \<le> length (filter (starts r) (timers s))"
        by simp
      with assms(1) sub x neq
      have "tracked (s\<lparr>timers := ?ts, calls := calls s @ [x], promises := promises s @ [x]\<rparr>) r"
        by (intro started_other_tracked)
      with neq show ?thesis
        by (simp add: tracked_op_upd)
    qed
    finally show ?thesis .
  qed
qed

lemma failing_cong:
  assumes "operations t = operations s" "queuedOperations t = queuedOperations s"
    "timers t = timers s" "promises t = promises s" "calls t = calls s"
    "completedOperations t = completedOperations s" "currentOperations t = currentOperations s"
    "numCurrentOperations t = numCurrentOperations s"
    "maxConcurrentOperations t = maxConcurrentOperations s"
    "maxFailuresPerOperation t = maxFailuresPerOperation s" "cooldown t = cooldown s"
  shows "failing t r = failing s r"
  unfolding failing_def well_formed_def active_def ids_def assms ..

lemma requeue_own:
  assumes "failing s r" "int (timesFailed (operations s ! r)) < maxFailuresPerOperation s"
  defines "w \<equiv> s\<lparr>operations := (operations s)[r := (operations s ! r)\<lparr>once_failed := 0\<rparr>],
                  queuedOperations := queuedOperations s @ [r],
                  currentOperations := AList.delete (op_id (operations s ! r)) (currentOperations s),
                  numCurrentOperations := numCurrentOperations s - 1\<rparr>"
  shows "admissible w r" and "\<not> isFull w"
proof -
  from assms(1) have n: "r < length (operations s)" and wf: "well_formed s"
    by (simp_all add: failing_def)
  have o: "operations w ! r = (operations s ! r)\<lparr>once_failed := 0\<rparr>"
    using n by (simp add: w_def)
  have i: "ids w = ids s"
    by (simp add: w_def ids_def map_update_id)
  have f: "queuedOperations w = queuedOperations s @ [r]" "calls w = calls s"
    "promises w = promises s" "completedOperations w = completedOperations s"
    "currentOperations w = AList.delete (op_id (operations s ! r)) (currentOperations s)"
    "maxFailuresPerOperation w = maxFailuresPerOperation s"
    "maxConcurrentOperations w = maxConcurrentOperations s"
    "numCurrentOperations w = numCurrentOperations s - 1"
    "timers w = timers s"
    "cooldown w = cooldown s" "length (operations w) = length (operations s)"
    by (simp_all add: w_def)
  have a: "active w r = active s r"
    by (simp add: active_def f)
  have 1: "well_formed w"
    using wf n unfolding well_formed_def f i by (simp add: delete_conv')
  have 2: "accounted w r"
    using assms(1,2) unfolding failing_def accounted_def a o f by auto
  have t: "tl (queuedOperations s @ [r]) = (if queuedOperations s = [] then [] else tl (queuedOperations s) @ [r])"
    by (cases "queuedOperations s") simp_all
  have h: "hd (queuedOperations s @ [r]) = (if queuedOperations s = [] then r else hd (queuedOperations s))"
    by (cases "queuedOperations s") simp_all
  have hq: "queuedOperations s \<noteq> [] \<Longrightarrow> hd (queuedOperations s) \<noteq> r"
    using assms(1) unfolding failing_def by (metis list.set_sel(1))
  have 3: "r \<in> set (tl (queuedOperations w)) \<longrightarrow> active w r = 0"
    using assms(1) unfolding failing_def a f t by auto
  have 4: "2 \<le> active w r + (if queuedOperations w \<noteq> [] \<and> hd (queuedOperations w) = r then 1 else 0) \<longrightarrow>
        cooldown w = 0 \<and> tl (queuedOperations w) = []"
    using assms(1) hq unfolding failing_def a f t h by auto
  from 1 2 3 4 n show "admissible w r"
    unfolding admissible_def f by simp
  from wf show "\<not> isFull w"
    by (simp add: isFull_def well_formed_def f)
qed

lemma finalize_own:
  assumes "failing s r" "\<not> int (timesFailed (operations s ! r)) < maxFailuresPerOperation s"
  defines "w \<equiv> s\<lparr>operations := (operations s)[r := (operations s ! r)\<lparr>once_failed := 0\<rparr>],
                  completedOperations := completedOperations s @
                     [map_of (currentOperations s) (op_id (operations s ! r))],
                  currentOperations := AList.delete (op_id (operations s ! r)) (currentOperations s),
                  numCurrentOperations := numCurrentOperations s - 1\<rparr>"
  shows "tracked w r" and "r \<notin> set (queuedOperations w)" and "once_failed (operations w ! r) = 0"
proof -
  from assms(1) have n: "r < length (operations s)" and wf: "well_formed s"
    by (simp_all add: failing_def)
  have o: "operations w ! r = (operations s ! r)\<lparr>once_failed := 0\<rparr>"
    using n by (simp add: w_def)
  have i: "ids w = ids s"
    by (simp add: w_def ids_def map_update_id)
  from assms(1) have c: "map_of (currentOperations s) (op_id (operations s ! r)) = Some r"
    by (simp add: failing_def)
  have f: "queuedOperations w = queuedOperations s" "calls w = calls s"
    "promises w = promises s" "completedOperations w = completedOperations s @ [Some r]"
    "currentOperations w = AList.delete (op_id (operations s ! r)) (currentOperations s)"
    "maxFailuresPerOperation w = maxFailuresPerOperation s"
    "maxConcurrentOperations w = maxConcurrentOperations s"
    "numCurrentOperations w = numCurrentOperations s - 1"
    "timers w = timers s"
    "cooldown w = cooldown s" "length (operations w) = length (operations s)"
    by (simp_all add: w_def c)
  have a: "active w r = active s r"
    by (simp add: active_def f)
  have 1: "well_formed w"
    using wf n unfolding well_formed_def f i by (simp add: delete_conv')
  have 2: "accounted w r"
    using assms(1,2) unfolding failing_def accounted_def a o f by auto
  from 1 2 n assms(1) show "tracked w r"
    unfolding tracked_def failing_def a f by auto
  from assms(1) show "r \<notin> set (queuedOperations w)"
    by (simp add: failing_def f)
  show "once_failed (operations w ! r) = 0"
    by (simp add: o)
qed

lemma admissible_emitted [simp]: "admissible (s\<lparr>emitted := x\<rparr>) r = admissible s r"
  by (rule admissible_cong) simp_all

lemma tracked_emitted [simp]: "tracked (s\<lparr>emitted := x\<rparr>) r = tracked s r"
  by (rule tracked_cong) simp_all

lemma isFull_emitted [simp]: "isFull (s\<lparr>emitted := x\<rparr>) = isFull s"
  by (simp add: isFull_def)

lemma emit_fields [simp]:
  "maxFailuresPerOperation (emit sig s) = maxFailuresPerOperation s"
  "maxConcurrentOperations (emit sig s) = maxConcurrentOperations s"
  "completedOperations (emit sig s) = completedOperations s"
  "currentOperations (emit sig s) = currentOperations s"
  "numCurrentOperations (emit sig s) = numCurrentOperations s"
  "timers (emit sig s) = timers s"
  "promises (emit sig s) = promises s"
  "calls (emit sig s) = calls s"
  "cooldown (emit sig s) = cooldown s"
  by (simp_all add: emit_def)

lemma own_failure:
  assumes "failing s r"
  defines "e \<equiv> onFailed r (op_upd r (\<lambda>p. p\<lparr>once_failed := once_failed p - 1\<rparr>) s)"
  shows "tracked e r \<and> (once_failed (operations e ! r) \<noteq> 0 \<longrightarrow> failing e r)"
proof -
  from assms(1) have n: "r < length (operations s)" and f1: "once_failed (operations s ! r) = 1"
    by (simp_all add: failing_def)
  let ?t = "emit (OPERATION_FAILED (op_id (operations s ! r)))
              (op_upd r (\<lambda>p. p\<lparr>once_failed := once_failed p - 1\<rparr>) s)"
  have ot: "operations (op_upd r (\<lambda>p. p\<lparr>once_failed := once_failed p - Suc 0\<rparr>) s)
      = (operations s)[r := (operations s ! r)\<lparr>once_failed := 0\<rparr>]"
    using f1 by (simp add: op_upd_def)
  show ?thesis
  proof (cases "int (timesFailed (operations s ! r)) < maxFailuresPerOperation s")
    case True
    let ?w = "s\<lparr>operations := (operations s)[r := (operations s ! r)\<lparr>once_failed := 0\<rparr>],
                  queuedOperations := queuedOperations s @ [r],
                  currentOperations := AList.delete (op_id (operations s ! r)) (currentOperations s),
                  numCurrentOperations := numCurrentOperations s - 1\<rparr>"
    let ?W = "?t\<lparr>queuedOperations := queuedOperations ?t @ [r],
                  completedOperations := completedOperations ?t,
                  currentOperations := AList.delete (op_id (operations s ! r)) (currentOperations ?t),
                  numCurrentOperations := numCurrentOperations ?t - 1\<rparr>"
    have e: "e = startNextOperation False ?W"
      using True n
      by (simp add: e_def onFailed_def Let_def emitOperation_def the_op_def op_upd_fields
          handleOperationComplete_unfold)
    have "admissible ?W r = admissible ?w r"
      by (rule admissible_cong) (simp_all add: ot op_upd_fields)
    moreover have "isFull ?W = isFull ?w"
      by (simp add: isFull_def op_upd_fields)
    ultimately have "admissible ?W r" "\<not> isFull ?W"
      using requeue_own [OF assms(1) True] by simp_all
    then have t: "tracked e r"
      unfolding e by (rule startNextOperation_after_bookkeeping)
    have "failing e r" if nz: "once_failed (operations e ! r) \<noteq> 0"
    proof -
      have "cooldown ?W = 0 \<and> queuedOperations (startNextOperation False ?W) = []"
      proof (rule readmitted_last_drains [where qp = "queuedOperations s" and r = r])
        show "queuedOperations ?W = queuedOperations s @ [r]" by (simp add: op_upd_fields)
        from assms(1) show "r \<notin> set (queuedOperations s)" by (simp add: failing_def)
        from n show "once_failed (operations ?W ! r) = 0" by (simp add: ot)
        from nz show "once_failed (operations (startNextOperation False ?W) ! r) \<noteq> 0"
          by (simp add: e)
      qed
      then have "cooldown e = 0" "queuedOperations e = []"
        by (simp_all add: e cooldown_startNextOperation)
      with t nz show ?thesis
        unfolding tracked_def accounted_def failing_def by auto
    qed
    with t show ?thesis by simp
  next
    case False
    let ?w = "s\<lparr>operations := (operations s)[r := (operations s ! r)\<lparr>once_failed := 0\<rparr>],
                  completedOperations := completedOperations s @
                     [map_of (currentOperations s) (op_id (operations s ! r))],
                  currentOperations := AList.delete (op_id (operations s ! r)) (currentOperations s),
                  numCurrentOperations := numCurrentOperations s - 1\<rparr>"
    let ?W = "?t\<lparr>completedOperations := completedOperations ?t @
                     [map_of (currentOperations ?t) (op_id (operations s ! r))],
                  currentOperations := AList.delete (op_id (operations s ! r)) (currentOperations ?t),
                  numCurrentOperations := numCurrentOperations ?t - 1\<rparr>"
    have e: "e = startNextOperation False ?W"
      using False n
      by (simp add: e_def onFailed_def Let_def emitOperation_def the_op_def op_upd_fields
          handleOperationComplete_unfold)
    note w = finalize_own [OF assms(1) False]
    have "tracked ?W r = tracked ?w r"
      by (rule tracked_cong) (simp_all add: ot op_upd_fields)
    with w(1) have "tracked ?W r" by simp
    then have t: "tracked e r"
      unfolding e by (rule startNextOperation_tracked)
    from w(2) have "r \<notin> set (queuedOperations ?W)" by (simp add: op_upd_fields)
    then have "operations e ! r = operations ?W ! r"
      unfolding e by (rule operations_startNextOperation_other)
    with n have "once_failed (operations e ! r) = 0" by (simp add: ot)
    with t show ?thesis by simp
  qed
qed

lemma emit_failed_own:
  assumes "(once_failed (operations s ! r) = 0 \<and> tracked s r) \<or> failing s r"
  shows "tracked (emit_failed r s) r \<and>
         (once_failed (operations (emit_failed r s) ! r) \<noteq> 0 \<longrightarrow> failing (emit_failed r s) r)"
proof -
  let ?s = "s\<lparr>op_emitted := op_emitted s @ [(r, OPERATION_FAILED (op_id (the_op s r)))]\<rparr>"
  from assms show ?thesis
  proof
    assume a: "once_failed (operations s ! r) = 0 \<and> tracked s r"
    then have "emit_failed r s = ?s"
      by (simp add: emit_failed_def the_op_def)
    with a show ?thesis by simp
  next
    assume a: "failing s r"
    then have f: "failing ?s r"
      by (subst failing_cong [of _ s]) simp_all
    from a have "emit_failed r s =
        onFailed r (op_upd r (\<lambda>p. p\<lparr>once_failed := once_failed p - 1\<rparr>) ?s)"
      by (simp add: emit_failed_def the_op_def failing_def)
    with own_failure [OF f] show ?thesis by simp
  qed
qed

lemma count_list_remove1:
  "count_list (remove1 x xs) y = (if x = y then count_list xs y - 1 else count_list xs y)"
  by (induction xs) auto

lemma well_formed_promise_removed:
  "well_formed s \<Longrightarrow> well_formed (s\<lparr>promises := remove1 x (promises s)\<rparr>)"
  unfolding well_formed_def
  by (auto dest: notin_set_remove1)

lemma settled_other_tracked:
  assumes "tracked s r" "x \<noteq> r"
  shows "tracked (s\<lparr>promises := remove1 x (promises s)\<rparr>) r"
proof -
  let ?t = "s\<lparr>promises := remove1 x (promises s)\<rparr>"
  have c: "count_list (promises ?t) r = count_list (promises s) r"
    using assms(2) by (simp add: count_list_remove1)
  then have a: "active ?t r = active s r"
    by (simp add: active_def)
  have f: "operations ?t = operations s" "queuedOperations ?t = queuedOperations s"
    "calls ?t = calls s" "completedOperations ?t = completedOperations s"
    "currentOperations ?t = currentOperations s"
    "maxFailuresPerOperation ?t = maxFailuresPerOperation s" "cooldown ?t = cooldown s"
    by simp_all
  have "accounted ?t r = accounted s r"
    using a c by (intro accounted_cong) simp_all
  with assms(1) have "accounted ?t r"
    by (simp add: tracked_def)
  moreover from assms(1) have "well_formed ?t"
    by (simp add: tracked_def well_formed_promise_removed)
  ultimately show ?thesis
    using assms(1) unfolding tracked_def a f by simp
qed

lemma resolved_other_tracked:
  assumes "tracked s r" "x \<in> set (promises s)" "x \<noteq> r"
  shows "tracked (operation_resolved x v (s\<lparr>promises := remove1 x (promises s)\<rparr>)) r"
proof -
  from assms(1,2) have x: "x < length (operations s)"
    by (simp add: tracked_def well_formed_def)
  have "tracked (op_upd x (\<lambda>p. p\<lparr>op_status := COMPLETED, op_result := v\<rparr>)
          (s\<lparr>promises := remove1 x (promises s)\<rparr>)) r"
    using assms(1,3) by (simp add: tracked_op_upd settled_other_tracked)
  then show ?thesis
    unfolding operation_resolved_def
    using x assms(3) by (intro emit_completed_other) (simp_all add: op_upd_fields)
qed

lemma rejected_other_tracked:
  assumes "tracked s r" "x \<in> set (promises s)" "x \<noteq> r"
  shows "tracked (operation_rejected x v (s\<lparr>promises := remove1 x (promises s)\<rparr>)) r"
proof -
  from assms(1,2) have x: "x < length (operations s)"
    by (simp add: tracked_def well_formed_def)
  let ?s2 = "op_upd x (\<lambda>p. p\<lparr>op_status := FAILED, op_result := v, timesFailed := timesFailed p + 1\<rparr>)
          (s\<lparr>promises := remove1 x (promises s)\<rparr>)"
  have "tracked ?s2 r"
    using assms(1,3) by (simp add: tracked_op_upd settled_other_tracked)
  moreover have "x < length (operations ?s2)"
    using x by (simp add: op_upd_fields)
  ultimately have 1: "tracked (emit_failed x ?s2) r \<and>
      length (operations (emit_failed x ?s2)) = length (operations ?s2)"
    using assms(3) by (intro emit_failed_other)
  with x have "tracked (emit_failed x (emit_failed x ?s2)) r \<and>
      length (operations (emit_failed x (emit_failed x ?s2))) = length (operations (emit_failed x ?s2))"
    using assms(3) by (intro emit_failed_other) (simp_all add: op_upd_fields)
  then show ?thesis
    by (simp add: operation_rejected_def)
qed

lemma rejected_own_state:
  fixes v :: "'v option"
  assumes "tracked s r" "r \<in> set (promises s)"
  defines "s2 \<equiv> op_upd r (\<lambda>p. p\<lparr>op_status := FAILED, op_result := v, timesFailed := timesFailed p + 1\<rparr>)
          (s\<lparr>promises := remove1 r (promises s)\<rparr>)"
  shows "(once_failed (operations s2 ! r) = 0 \<and> tracked s2 r) \<or> failing s2 r"
proof -
  from assms(1) have n: "r < length (operations s)" and wf: "well_formed s" and c: "accounted s r"
    and q: "r \<in> set (queuedOperations s) \<longrightarrow> active s r = 0"
    and g: "2 \<le> active s r \<longrightarrow> cooldown s = 0 \<and> queuedOperations s = []"
    by (simp_all add: tracked_def)
  from assms(2) have p1: "0 < count_list (promises s) r"
    by (metis count_list_0_iff gr0I)
  with c have st: "op_status (operations s ! r) = STARTED" and p: "count_list (promises s) r = 1"
    by (auto simp: accounted_def split: if_splits)
  have o: "operations s2 ! r =
      (operations s ! r)\<lparr>op_status := FAILED, op_result := v,
                          timesFailed := Suc (timesFailed (operations s ! r))\<rparr>"
    using n by (simp add: s2_def op_upd_def)
  have f: "queuedOperations s2 = queuedOperations s" "calls s2 = calls s"
    "completedOperations s2 = completedOperations s"
    "currentOperations s2 = currentOperations s"
    "maxFailuresPerOperation s2 = maxFailuresPerOperation s"
    "cooldown s2 = cooldown s" "length (operations s2) = length (operations s)"
    by (simp_all add: s2_def op_upd_def)
  have cp: "count_list (promises s2) r = 0"
    using p by (simp add: s2_def op_upd_def count_list_remove1)
  have a: "active s r = Suc (active s2 r)"
    using p by (simp add: active_def s2_def op_upd_def count_list_remove1)
  have w: "well_formed s2"
    unfolding s2_def using wf by (simp add: well_formed_op_upd well_formed_promise_removed)
  from q a have nq: "r \<notin> set (queuedOperations s)" by auto
  from c have le: "once_failed (operations s ! r) \<le> 1"
    and c1: "count_list (queuedOperations s) r \<le> 1"
    and c2: "count_list (calls s) r = timesFailed (operations s ! r) + count_list (promises s) r"
    and c3: "(maxFailuresPerOperation s \<le> int (timesFailed (operations s ! r))) =
             (Some r \<in> set (completedOperations s))"
    and c4: "once_failed (operations s ! r) \<noteq> 0 \<longrightarrow>
        int (timesFailed (operations s ! r)) < maxFailuresPerOperation s \<and>
        map_of (currentOperations s) (op_id (operations s ! r)) = Some r"
    and c5: "0 < active s r \<and> once_failed (operations s ! r) = 0 \<and> r \<notin> set (queuedOperations s) \<longrightarrow>
        maxFailuresPerOperation s \<le> int (timesFailed (operations s ! r))"
    unfolding accounted_def by blast+
  show ?thesis
  proof (cases "once_failed (operations s ! r) = 0")
    case True
    from c5 True nq a have mx: "maxFailuresPerOperation s \<le> int (timesFailed (operations s ! r))"
      by simp
    with c3 have fin: "Some r \<in> set (completedOperations s)" by simp
    have "accounted s2 r"
      unfolding accounted_def o f cp using True nq c1 c2 p mx fin by simp
    moreover have "2 \<le> active s2 r \<longrightarrow> cooldown s = 0 \<and> queuedOperations s = []"
      using g a by simp
    ultimately have "tracked s2 r"
      unfolding tracked_def f using w n nq by simp
    with True show ?thesis
      by (simp add: o)
  next
    case False
    with le have one: "once_failed (operations s ! r) = 1" by simp
    from c4 False have lt: "int (timesFailed (operations s ! r)) < maxFailuresPerOperation s"
      and cur: "map_of (currentOperations s) (op_id (operations s ! r)) = Some r"
      by simp_all
    from c3 lt have notdone: "Some r \<notin> set (completedOperations s)" by simp
    have "queuedOperations s \<noteq> [] \<or> cooldown s \<noteq> 0 \<longrightarrow> active s2 r = 0"
      using g a by auto
    then have "failing s2 r"
      unfolding failing_def o f cp using w n one lt nq cur c2 p notdone by simp
    then show ?thesis ..
  qed
qed

lemma rejected_own_tracked:
  assumes "tracked s r" "r \<in> set (promises s)"
  shows "tracked (operation_rejected r v (s\<lparr>promises := remove1 r (promises s)\<rparr>)) r"
proof -
  let ?s2 = "op_upd r (\<lambda>p. p\<lparr>op_status := FAILED, op_result := v, timesFailed := timesFailed p + 1\<rparr>)
          (s\<lparr>promises := remove1 r (promises s)\<rparr>)"
  from rejected_own_state [OF assms]
  have "(once_failed (operations ?s2 ! r) = 0 \<and> tracked ?s2 r) \<or> failing ?s2 r" .
  from emit_failed_own [OF this]
  have "(once_failed (operations (emit_failed r ?s2) ! r) = 0 \<and> tracked (emit_failed r ?s2) r)
      \<or> failing (emit_failed r ?s2) r"
    by auto
  from emit_failed_own [OF this] show ?thesis
    by (simp add: operation_rejected_def)
qed

lemma step_tracked:
  assumes "tracked s r" "step e s = Some s'" "e \<noteq> Start" "\<forall>v. e \<noteq> Settle r (Resolve v)"
  shows "tracked s' r"
proof (cases e)
  case Start
  with assms(3) show ?thesis by simp
next
  case (Fire n)
  with assms(2) have n: "n < length (timers s)"
    by (simp add: step_def split: if_splits)
  show ?thesis
  proof (cases "timers s ! n")
    case (StartTimer x d)
    with assms(2) Fire n have "s' = operation_start x (s\<lparr>timers := take n (timers s) @ drop (Suc n) (timers s)\<rparr>)"
      by (simp add: step_def Let_def)
    with assms(1) n StartTimer show ?thesis
      by (simp add: start_timer_tracked)
  next
    case (CooldownTimer d)
    with assms(2) Fire n have "s' = startNextOperation True (s\<lparr>timers := take n (timers s) @ drop (Suc n) (timers s)\<rparr>)"
      by (simp add: step_def Let_def)
    with assms(1) n CooldownTimer show ?thesis
      by (simp add: cooldown_timer_tracked)
  qed
next
  case (Settle x out)
  with assms(2) have x: "x \<in> set (promises s)"
    by (simp add: step_def split: if_splits)
  show ?thesis
  proof (cases out)
    case (Resolve v)
    with assms(4) Settle have "x \<noteq> r" by auto
    moreover from assms(2) Settle Resolve x
    have "s' = operation_resolved x v (s\<lparr>promises := remove1 x (promises s)\<rparr>)"
      by (simp add: step_def Let_def)
    ultimately show ?thesis
      using assms(1) x by (simp add: resolved_other_tracked)
  next
    case (Reject v)
    with assms(2) Settle x
    have "s' = operation_rejected x v (s\<lparr>promises := remove1 x (promises s)\<rparr>)"
      by (simp add: step_def Let_def)
    with assms(1) x show ?thesis
      by (cases "x = r") (simp_all add: rejected_other_tracked rejected_own_tracked)
  qed
qed

lemma run_tracked:
  "tracked s r \<Longrightarrow> run es s = Some s' \<Longrightarrow> Start \<notin> set es \<Longrightarrow>
   \<forall>v. Settle r (Resolve v) \<notin> set es \<Longrightarrow> tracked s' r"
proof (induction es arbitrary: s)
  case Nil
  then show ?case by simp
next
  case (Cons e es)
  from Cons.prems(2) obtain t where t: "step e s = Some t" "run es t = Some s'"
    by (auto split: option.splits)
  from Cons.prems(3,4) have "e \<noteq> Start" "\<forall>v. e \<noteq> Settle r (Resolve v)"
    by auto
  with Cons.prems(1) t(1) have "tracked t r"
    by (intro step_tracked [of s r e t]) simp_all
  with Cons.IH [of t] t(2) Cons.prems(3,4) show ?case
    by simp
qed

lemma budget_admit: "maxFailuresPerOperation (admit s) = maxFailuresPerOperation s"
  by (cases "queuedOperations s") (simp_all add: admit_Nil admit_fields)

lemma budget_startNextOperation:
  "maxFailuresPerOperation (startNextOperation c s) = maxFailuresPerOperation s"
  by (rule startNextOperation_frame) (simp_all add: budget_admit setTimeout_def)

lemma budget_handleOperationComplete:
  "maxFailuresPerOperation (handleOperationComplete i final s) = maxFailuresPerOperation s"
  by (simp add: handleOperationComplete_unfold budget_startNextOperation)

lemma budget_listeners:
  "maxFailuresPerOperation (onStarted x s) = maxFailuresPerOperation s"
  "maxFailuresPerOperation (onCompleted x s) = maxFailuresPerOperation s"
  "maxFailuresPerOperation (onFailed x s) = maxFailuresPerOperation s"
  by (simp_all add: onStarted_def onCompleted_def onFailed_def emitOperation_def Let_def
      budget_handleOperationComplete)

lemma budget_emits:
  "maxFailuresPerOperation (emit_started x s) = maxFailuresPerOperation s"
  "maxFailuresPerOperation (emit_completed x s) = maxFailuresPerOperation s"
  "maxFailuresPerOperation (emit_failed x s) = maxFailuresPerOperation s"
  unfolding emit_started_def emit_completed_def emit_failed_def
  by (subst invoke_once_frame; simp add: budget_listeners op_upd_fields)+

lemma budget_step: "step e s = Some s' \<Longrightarrow> maxFailuresPerOperation s' = maxFailuresPerOperation s"
  by (auto simp: step_def Let_def job_start_def operation_start_def operation_resolved_def
      operation_rejected_def budget_startNextOperation budget_emits op_upd_fields
      split: event.splits if_splits timer.splits settled.splits)

lemma budget_run: "run es s = Some s' \<Longrightarrow> maxFailuresPerOperation s' = maxFailuresPerOperation s"
proof (induction es arbitrary: s)
  case Nil
  then show ?case by simp
next
  case (Cons e es)
  then show ?case
    by (auto split: option.splits dest: budget_step)
qed

lemma count_list_distinct: "distinct xs \<Longrightarrow> count_list xs x \<le> 1"
  by (induction xs) (auto simp: count_list_0_iff)

lemma count_list_upt: "count_list [0..<n] r \<le> 1"
  by (rule count_list_distinct) simp

lemma new_job_tracked:
  assumes "r < length ds" "distinct (map (\<lambda>i. dataToId (ds ! i) i) [0..<length ds])"
    "1 \<le> maxFailures" "0 \<le> maxConcurrent"
  shows "tracked (new_job nm ds dataToId maxConcurrent maxFailures cool thr :: ('k, 'd, 'v) job) r"
proof -
  let ?j = "new_job nm ds dataToId maxConcurrent maxFailures cool thr :: ('k, 'd, 'v) job"
  have i: "ids ?j = map (\<lambda>i. dataToId (ds ! i) i) [0..<length ds]"
    by (simp add: ids_def new_job_def new_operation_def comp_def)
  have o: "operations ?j ! r = new_operation (dataToId (ds ! r) r) (ds ! r)"
    using assms(1) by (simp add: new_job_def)
  have f: "queuedOperations ?j = [0..<length ds]" "timers ?j = []" "promises ?j = []"
    "calls ?j = []" "completedOperations ?j = []" "currentOperations ?j = []"
    "numCurrentOperations ?j = 0" "maxConcurrentOperations ?j = maxConcurrent"
    "maxFailuresPerOperation ?j = maxFailures" "length (operations ?j) = length ds"
    by (simp_all add: new_job_def)
  have "well_formed ?j"
    unfolding well_formed_def i f using assms by simp
  moreover have "accounted ?j r"
    unfolding accounted_def o f active_def using assms(3) count_list_upt [of "length ds" r]
    by (simp add: new_operation_def)
  moreover have "active ?j r = 0"
    by (simp add: active_def f)
  ultimately show ?thesis
    unfolding tracked_def f using assms(1) by simp
qed

text \<open>
  What holds for an operation whose resolver never fulfils, in every run of a Job that is
  started once, with ids that are distinct (as values and as property keys), a limit that is
  not negative and a budget
  \<^verbatim>\<open>maxFailuresPerOperation\<close> of at least one: the operation is in \<^verbatim>\<open>completedOperations\<close>
  exactly when its \<^verbatim>\<open>timesFailed\<close> has reached the budget; the resolver has been called once
  per counted failure, plus once if an attempt is in flight; as long as the operation is not
  finalized the resolver has been called at most \<^verbatim>\<open>maxFailuresPerOperation\<close> times; the
  operation is in the backlog only while \<^verbatim>\<open>timesFailed\<close> is under the budget. With a budget of
  one, an operation in the backlog has never been attempted, and an operation that is not
  finalized has been attempted once if it is in flight and never otherwise. Nothing is said
  about the calls made after the operation is finalized.
\<close>

lemma always_failing_operation_budget:
  fixes s :: "('k, 'd, 'v) job"
  assumes "run (Start # es) (new_job nm ds dataToId maxConcurrent maxFailures cool thr) = Some s"
    and "Start \<notin> set es"
    and "\<forall>v. Settle r (Resolve v) \<notin> set es"
    and "r < length ds"
    and "distinct (map (\<lambda>i. dataToId (ds ! i) i) [0..<length ds])"
    and "1 \<le> maxFailures" and "0 \<le> maxConcurrent"
  shows "(Some r \<in> set (completedOperations s) \<longleftrightarrow> maxFailures \<le> int (timesFailed (the_op s r))) \<and>
         count_list (calls s) r
           = timesFailed (the_op s r) + (if op_status (the_op s r) = STARTED then 1 else 0) \<and>
         (Some r \<notin> set (completedOperations s) \<longrightarrow> int (count_list (calls s) r) \<le> maxFailures) \<and>
         (r \<in> set (queuedOperations s) \<longrightarrow> int (timesFailed (the_op s r)) < maxFailures) \<and>
         (maxFailures = 1 \<longrightarrow>
            (r \<in> set (queuedOperations s) \<longrightarrow> count_list (calls s) r = 0) \<and>
            (Some r \<notin> set (completedOperations s) \<longrightarrow>
               count_list (calls s) r = (if op_status (the_op s r) = STARTED then 1 else 0)))"
proof -
  let ?j = "new_job nm ds dataToId maxConcurrent maxFailures cool thr :: ('k, 'd, 'v) job"
  have "tracked ?j r"
    using assms(4-7) by (rule new_job_tracked)
  then have "tracked (job_start ?j) r"
    by (simp add: job_start_def startNextOperation_tracked)
  moreover from assms(1) have r: "run es (job_start ?j) = Some s"
    by (simp add: step_def)
  ultimately have t: "tracked s r"
    using assms(2,3) by (rule run_tracked)
  have "maxFailuresPerOperation (job_start ?j) = maxFailures"
    by (simp add: job_start_def budget_startNextOperation emit_def) (simp add: new_job_def)
  with budget_run [OF r] have m: "maxFailuresPerOperation s = maxFailures"
    by simp
  from t have c: "accounted s r" and q: "r \<in> set (queuedOperations s) \<longrightarrow> active s r = 0"
    by (simp_all add: tracked_def)
  from c have c2: "count_list (calls s) r = timesFailed (operations s ! r) + count_list (promises s) r"
    and c3: "(maxFailures \<le> int (timesFailed (operations s ! r))) =
             (Some r \<in> set (completedOperations s))"
    and c4: "count_list (promises s) r = (if op_status (operations s ! r) = STARTED then 1 else 0)"
    and c6: "r \<in> set (queuedOperations s) \<longrightarrow> int (timesFailed (operations s ! r)) < maxFailures"
    unfolding accounted_def m by blast+
  have 1: "Some r \<in> set (completedOperations s) \<longleftrightarrow> maxFailures \<le> int (timesFailed (the_op s r))"
    using c3 by (simp add: the_op_def)
  have 2: "Some r \<notin> set (completedOperations s) \<longrightarrow> int (count_list (calls s) r) \<le> maxFailures"
    using c2 c3 c4 by (auto split: if_splits)
  have 3: "maxFailures = 1 \<longrightarrow> r \<in> set (queuedOperations s) \<longrightarrow> count_list (calls s) r = 0"
    using c2 c6 q by (auto simp: active_def)
  have 4: "maxFailures = 1 \<longrightarrow> Some r \<notin> set (completedOperations s) \<longrightarrow>
               count_list (calls s) r = (if op_status (the_op s r) = STARTED then 1 else 0)"
    using c2 c3 c4 by (auto simp: the_op_def split: if_splits)
  have 5: "count_list (calls s) r
           = timesFailed (the_op s r) + (if op_status (the_op s r) = STARTED then 1 else 0)"
    using c2 c4 by (simp add: the_op_def)
  have 6: "r \<in> set (queuedOperations s) \<longrightarrow> int (timesFailed (the_op s r)) < maxFailures"
    using c6 by (simp add: the_op_def)
  from 1 2 3 4 5 6 show ?thesis by blast
qed

lemma always_failing_operation_budget_example:
  "run [Start] (new_job ''My Job'' [1, 2] (\<lambda>d i. d) 1 1 0 500)
     = Some (the (run [Start] (example_job [1, 2] 1 1 0))) \<and>
   run (Start # [Fire 0, Settle 0 (Reject (Some ''no''))])
       (new_job ''My Job'' [1, 2] (\<lambda>d i. d) 1 1 0 500)
     = Some (the (run [Start, Fire 0, Settle 0 (Reject (Some ''no''))] (example_job [1, 2] 1 1 0))) \<and>
   Start \<notin> set [Fire 0, Settle 0 (Reject (Some ''no''))] \<and>
   (\<forall>v. Settle 0 (Resolve v) \<notin> set [Fire 0, Settle 0 (Reject (Some ''no''))]) \<and>
   (1 :: nat) < length [1 :: nat, 2] \<and> (0 :: nat) < length [1 :: nat, 2] \<and>
   distinct (map (\<lambda>i. (\<lambda>d i. d) ([1 :: nat, 2] ! i) i) [0..<length [1 :: nat, 2]]) \<and>
   (1 :: int) \<le> 1 \<and> (0 :: int) \<le> 1 \<and>
   after [Start] (example_job [1, 2] 1 1 0)
     (\<lambda>s. (queuedOperations s, completedOperations s, count_list (calls s) 1))
     = Some ([1], [], 0) \<and>
   after [Start, Fire 0, Settle 0 (Reject (Some ''no''))] (example_job [1, 2] 1 1 0)
     (\<lambda>s. (completedOperations s, timesFailed (the_op s 0), op_status (the_op s 0),
           count_list (calls s) 0))
     = Some ([Some 0], 1, FAILED, 1)"
proof -
  have a: "run (Start # []) (new_job ''My Job'' [1, 2] (\<lambda>d i. d) 1 1 0 500)
     = Some (the (run [Start] (example_job [1, 2] 1 1 0)))"
    by code_simp
  have b: "run (Start # [Fire 0, Settle 0 (Reject (Some ''no''))])
       (new_job ''My Job'' [1, 2] (\<lambda>d i. d) 1 1 0 500)
     = Some (the (run [Start, Fire 0, Settle 0 (Reject (Some ''no''))] (example_job [1, 2] 1 1 0)))"
    by code_simp
  have n: "Start \<notin> set [Fire 0, Settle 0 (Reject (Some ''no''))]"
    "\<forall>v. Settle 0 (Resolve v) \<notin> set [Fire 0, Settle 0 (Reject (Some ''no''))]"
    "Start \<notin> set []" "\<forall>v. Settle 1 (Resolve v) \<notin> set []"
    by simp_all
  have l: "(1 :: nat) < length [1 :: nat, 2]" "(0 :: nat) < length [1 :: nat, 2]"
    by simp_all
  have m: "(1 :: int) \<le> 1" "(0 :: int) \<le> 1"
    by simp_all
  have d: "distinct (map (\<lambda>i. (\<lambda>d i. d) ([1 :: nat, 2] ! i) i) [0..<length [1 :: nat, 2]])"
    by (simp add: upt_rec)
  have v: "after [Start] (example_job [1, 2] 1 1 0)
     (\<lambda>s. (queuedOperations s, completedOperations s, count_list (calls s) 1))
     = Some ([1], [], 0)"
    "after [Start, Fire 0, Settle 0 (Reject (Some ''no''))] (example_job [1, 2] 1 1 0)
     (\<lambda>s. (completedOperations s, timesFailed (the_op s 0), op_status (the_op s 0),
           count_list (calls s) 0))
     = Some ([Some 0], 1, FAILED, 1)"
    by code_simp+
  from always_failing_operation_budget [OF a n(3) n(4) l(1) d m]
    always_failing_operation_budget [OF b n(1) n(2) l(2) d m] a b n l d v
  show ?thesis
    by simp
qed

end
